theory Spec2Isabelle
  imports Complex_Main "HOL-Library.Sublist"
begin

section \<open>Coordinate buffers and points\<close>

text \<open>
  The library works on flat coordinate sequences: a polyline of dimension \<open>DIM\<close> is a
  sequence of coordinates whose length is a multiple of \<open>DIM\<close>, and an iterator is modelled
  by its offset from the start of the sequence. The template parameter \<open>DIM\<close> is an
  explicit argument. A coordinate is a real number; the next section says how the
  arithmetic of the coordinate type \<open>value_type\<close> and of \<open>float\<close> is modelled. Counts and
  offsets are natural numbers (the 32-bit range of \<open>unsigned\<close> is not modelled).

  \<open>pt DIM xs i\<close> is what a loop \<open>for (d = 0; d < DIM; ++d)\<close> reads through an iterator at
  offset \<open>i\<close>: the \<open>DIM\<close> coordinates of one point.
\<close>

definition pt :: "nat \<Rightarrow> real list \<Rightarrow> nat \<Rightarrow> real list" where
  "pt DIM xs i = take DIM (drop i xs)"

section \<open>Values and floating point\<close>

text \<open>
  The routines are templates over the coordinate type \<open>value_type\<close>, which the header
  allows to be a floating point or a signed integer type. In the model a coordinate is
  a real number, and sums, differences, products and comparisons of \<open>value_type\<close> are
  the exact ones: what a signed integer type computes as long as nothing overflows. The
  rounding of a floating point \<open>value_type\<close> in these operations is not part of the model.

  The distance functions leave \<open>value_type\<close> in two places, and both belong to the C++
  implementation and the choice of \<open>value_type\<close>, not to the source. They are the
  parameter \<open>fl\<close> of the model:

  \<^item> \<open>cast_div fl cw cv\<close> is the \<open>float\<close> that
    \<open>static_cast <float> (cw) / static_cast <float> (cv)\<close> yields;
  \<^item> \<open>cast_lerp fl a fraction d\<close> is the \<open>value_type\<close> stored by an assignment of
    \<open>a + fraction * d\<close>, for \<open>a\<close> and \<open>d\<close> of \<open>value_type\<close> and \<open>fraction\<close> a \<open>float\<close>.

  Both yield real numbers. An infinite or not-a-number \<open>float\<close> comes only from a
  division by zero, which \<open>line_distance2\<close> alone can reach, or from a floating point
  \<open>value_type\<close> beyond the range of \<open>float\<close>; it is outside the model. Theorems with a
  free \<open>fl\<close> hold whatever real numbers the two operations yield.
\<close>

record float_arith =
  cast_div :: "real \<Rightarrow> real \<Rightarrow> real"
  cast_lerp :: "real \<Rightarrow> real \<Rightarrow> real \<Rightarrow> real"

text \<open>
  Modelled from the spec: \<open>float\<close> and its conversions are not part of the source. The
  spec has the fraction "computed in floating point even for integer coordinate types";
  \<open>signed_integer\<close> is that arithmetic for a signed integer \<open>value_type\<close> where \<open>float\<close> is
  IEEE 754 single precision and every conversion and operation rounds to the nearest
  \<open>float\<close>, ties to even. \<open>binary32 x\<close> is the nearest \<open>float\<close> to \<open>x\<close>: the exponent \<open>e\<close> of
  \<open>x\<close> is found by search between \<open>-126\<close> and \<open>127\<close>, and \<open>x\<close> is rounded to a multiple of
  \<open>2 ^ (e - 23)\<close>. Overflow to infinity is outside the model. The assignment to an
  integer \<open>value_type\<close> drops the fractional part of the \<open>float\<close>.
\<close>

definition pow2 :: "int \<Rightarrow> real" where
  "pow2 e = (if 0 \<le> e then 2 ^ nat e else 1 / 2 ^ nat (- e))"

fun exponent_up :: "nat \<Rightarrow> int \<Rightarrow> real \<Rightarrow> int" where
  "exponent_up 0 e a = e"
| "exponent_up (Suc n) e a = (if pow2 (e + 1) \<le> a then exponent_up n (e + 1) a else e)"

fun exponent_down :: "nat \<Rightarrow> int \<Rightarrow> real \<Rightarrow> int" where
  "exponent_down 0 e a = e"
| "exponent_down (Suc n) e a = (if a < pow2 e then exponent_down n (e - 1) a else e)"

definition round_to_even :: "real \<Rightarrow> int" where
  "round_to_even x =
     (let n = \<lfloor>x\<rfloor>; r = x - of_int n
      in if r < 1 / 2 then n else if 1 / 2 < r then n + 1 else if even n then n else n + 1)"

definition binary32 :: "real \<Rightarrow> real" where
  "binary32 x =
     (if x = 0 then 0
      else let a = \<bar>x\<bar>;
               e = (if 1 \<le> a then exponent_up 127 0 a else exponent_down 126 0 a);
               u = pow2 (e - 23)
           in sgn x * of_int (round_to_even (a / u)) * u)"

definition truncate :: "real \<Rightarrow> int" where
  "truncate x = (if 0 \<le> x then \<lfloor>x\<rfloor> else \<lceil>x\<rceil>)"

definition signed_integer :: float_arith where
  "signed_integer =
     \<lparr>cast_div = (\<lambda>cw cv. binary32 (binary32 cw / binary32 cv)),
      cast_lerp = (\<lambda>a fraction d.
         of_int (truncate (binary32 (binary32 a + binary32 (fraction * binary32 d)))))\<rparr>"

section \<open>Geometry primitives (namespace math)\<close>

fun equal_points :: "real list \<Rightarrow> real list \<Rightarrow> bool" where
  "equal_points (a # p1) (b # p2) = (if a \<noteq> b then False else equal_points p1 p2)"
| "equal_points _ _ = True"

definition make_vector :: "real list \<Rightarrow> real list \<Rightarrow> real list" where
  "make_vector p1 p2 = map2 (\<lambda>a b. b - a) p1 p2"

definition dot :: "real list \<Rightarrow> real list \<Rightarrow> real" where
  "dot v1 v2 = sum_list (map2 (\<lambda>a b. a * b) v1 v2)"

text \<open>
  The \<open>d\<close>-th coordinate written by \<open>interpolate\<close> is \<open>*p1 + fraction * (*p2 - *p1)\<close>: the
  difference is taken in \<open>value_type\<close>, the product and the sum in \<open>float\<close>, and the sum is
  converted to the value type of the output, which every caller makes \<open>value_type\<close>.
\<close>

definition interpolate :: "float_arith \<Rightarrow> real list \<Rightarrow> real list \<Rightarrow> real \<Rightarrow> real list" where
  "interpolate fl p1 p2 fraction = map2 (\<lambda>a b. cast_lerp fl a fraction (b - a)) p1 p2"

definition point_distance2 :: "real list \<Rightarrow> real list \<Rightarrow> real" where
  "point_distance2 p1 p2 = sum_list (map2 (\<lambda>a b. (a - b) * (a - b)) p1 p2)"

text \<open>
  \<open>line_distance2\<close> divides by the squared length of the reference vector without a
  guard. For a zero-length reference the \<open>float\<close> quotient is \<open>0 / 0\<close>, not a number; the
  model returns \<open>None\<close> there.
\<close>

definition line_distance2 :: "float_arith \<Rightarrow> real list \<Rightarrow> real list \<Rightarrow> real list \<Rightarrow> real option" where
  "line_distance2 fl l1 l2 p =
     (let v = make_vector l1 l2;
          w = make_vector l1 p;
          cv = dot v v;
          cw = dot w v
      in if cv = 0 then None
         else Some (point_distance2 p (interpolate fl l1 l2 (cast_div fl cw cv))))"

definition segment_distance2 :: "float_arith \<Rightarrow> real list \<Rightarrow> real list \<Rightarrow> real list \<Rightarrow> real" where
  "segment_distance2 fl s1 s2 p =
     (let v = make_vector s1 s2;
          w = make_vector s1 p;
          cw = dot w v
      in if cw \<le> 0 then point_distance2 p s1
         else let cv = dot v v
              in if cv \<le> cw then point_distance2 p s2
                 else point_distance2 p (interpolate fl s1 s2 (cast_div fl cw cv)))"

definition ray_distance2 :: "float_arith \<Rightarrow> real list \<Rightarrow> real list \<Rightarrow> real list \<Rightarrow> real" where
  "ray_distance2 fl r1 r2 p =
     (let v = make_vector r1 r2;
          w = make_vector r1 p;
          cv = dot v v;
          cw = dot w v
      in if cw \<le> 0 then point_distance2 p r1
         else point_distance2 p (interpolate fl r1 r2 (cast_div fl cw cv)))"

section \<open>Key finding (DPHelper::FindKey)\<close>

record KeyInfo =
  index :: nat
  dist2 :: real

text \<open>
  The loop of \<open>FindKey\<close>. The guard \<open>0 < DIM\<close> is the type requirement "DIM is not zero";
  with it the loop terminates.
\<close>

function FindKey_loop :: "float_arith \<Rightarrow> nat \<Rightarrow> real list \<Rightarrow> nat \<Rightarrow> nat \<Rightarrow> nat \<Rightarrow> KeyInfo \<Rightarrow> KeyInfo" where
  "FindKey_loop fl DIM coords first lst current keyInfo =
     (if current < lst \<and> 0 < DIM then
        (let d2 = segment_distance2 fl (pt DIM coords first) (pt DIM coords lst) (pt DIM coords current)
         in if d2 < dist2 keyInfo then FindKey_loop fl DIM coords first lst (current + DIM) keyInfo
            else FindKey_loop fl DIM coords first lst (current + DIM) \<lparr>index = current, dist2 = d2\<rparr>)
      else keyInfo)"
  by pat_completeness auto
termination
  by (relation "measure (\<lambda>(fl, DIM, coords, first, lst, current, keyInfo). lst - current)") auto

declare FindKey_loop.simps [simp del]

definition FindKey :: "float_arith \<Rightarrow> nat \<Rightarrow> real list \<Rightarrow> nat \<Rightarrow> nat \<Rightarrow> KeyInfo" where
  "FindKey fl DIM coords first lst =
     FindKey_loop fl DIM coords first lst (first + DIM) \<lparr>index = 0, dist2 = 0\<rparr>"

section \<open>Output ranges\<close>

text \<open>
  A routine writes through the output iterator \<open>result\<close> and returns an iterator.
  \<open>written\<close> is the sequence of coordinates stored from the initial position of \<open>result\<close>
  on; \<open>ret\<close> is the distance of the returned iterator from that initial position. The
  routines that call one another through temporary arrays take the number of
  coordinates produced from \<open>ret\<close> (\<open>std::distance (array, returned)\<close>).
\<close>

record output_range =
  written :: "real list"
  ret :: nat

text \<open>
  The fallback on invalid input, \<open>std::copy (first, last, result); return result;\<close>:
  \<open>std::copy\<close> takes \<open>result\<close> by value and its return value is dropped, so the iterator
  returned is the initial one.
\<close>

definition copy_input :: "real list \<Rightarrow> output_range" where
  "copy_input xs = \<lparr>written = xs, ret = 0\<rparr>"

definition CopyKey :: "nat \<Rightarrow> real list \<Rightarrow> nat \<Rightarrow> real list \<Rightarrow> real list" where
  "CopyKey DIM xs key result = result @ pt DIM xs key"

definition finish :: "real list \<Rightarrow> output_range" where
  "finish result = \<lparr>written = result, ret = length result\<rparr>"

definition pointCount_of :: "nat \<Rightarrow> nat \<Rightarrow> nat" where
  "pointCount_of DIM coordCount = (if DIM \<noteq> 0 then coordCount div DIM else 0)"

section \<open>Nth point\<close>

fun NthPoint_loop :: "nat \<Rightarrow> real list \<Rightarrow> nat \<Rightarrow> nat \<Rightarrow> nat \<Rightarrow> real list \<Rightarrow> nat \<times> real list" where
  "NthPoint_loop DIM xs n 0 key result = (key, result)"
| "NthPoint_loop DIM xs n (Suc i) key result =
     NthPoint_loop DIM xs n i (key + n * DIM) (CopyKey DIM xs (key + n * DIM) result)"

definition NthPoint :: "nat \<Rightarrow> real list \<Rightarrow> nat \<Rightarrow> output_range" where
  "NthPoint DIM xs n =
     (let coordCount = length xs;
          pointCount = pointCount_of DIM coordCount
      in if coordCount mod DIM \<noteq> 0 \<or> pointCount < 2 \<or> n < 2 then copy_input xs
         else let result = CopyKey DIM xs 0 [];
                  k = (pointCount - 1) div n;
                  r = pointCount - k * n - 1;
                  (key, result) = NthPoint_loop DIM xs n k 0 result
              in finish (if r \<noteq> 0 then CopyKey DIM xs (key + DIM * r) result else result))"

section \<open>Radial distance\<close>

function RadialDistance_loop ::
  "nat \<Rightarrow> real list \<Rightarrow> real \<Rightarrow> nat \<Rightarrow> nat \<Rightarrow> nat \<Rightarrow> nat \<Rightarrow> real list \<Rightarrow> nat \<times> real list" where
  "RadialDistance_loop DIM xs tol2 pointCount idx current next result =
     (if idx < pointCount - 1 then
        (if point_distance2 (pt DIM xs current) (pt DIM xs (next + DIM)) < tol2
         then RadialDistance_loop DIM xs tol2 pointCount (idx + 1) current (next + DIM) result
         else RadialDistance_loop DIM xs tol2 pointCount (idx + 1) (next + DIM) (next + DIM)
                (CopyKey DIM xs (next + DIM) result))
      else (next, result))"
  by pat_completeness auto
termination
  by (relation "measure (\<lambda>(DIM, xs, tol2, pointCount, idx, current, next, result). pointCount - idx)") auto

declare RadialDistance_loop.simps [simp del]

definition RadialDistance :: "nat \<Rightarrow> real list \<Rightarrow> real \<Rightarrow> output_range" where
  "RadialDistance DIM xs tol =
     (let coordCount = length xs;
          pointCount = pointCount_of DIM coordCount;
          tol2 = tol * tol
      in if coordCount mod DIM \<noteq> 0 \<or> pointCount < 2 \<or> tol2 = 0 then copy_input xs
         else let result = CopyKey DIM xs 0 [];
                  (next, result) = RadialDistance_loop DIM xs tol2 pointCount 1 0 0 result
              in finish (CopyKey DIM xs (next + DIM) result))"

section \<open>Perpendicular distance\<close>

text \<open>
  The loop \<open>while (p2 != last)\<close>. On validated input \<open>p2\<close> never passes \<open>last\<close>, so the
  test is \<open>p2 < last\<close>; the model also stops when \<open>DIM\<close> is zero. The loop returns the
  final \<open>p1\<close> together with the output.
\<close>

function PerpendicularDistance_loop ::
  "float_arith \<Rightarrow> nat \<Rightarrow> real list \<Rightarrow> real \<Rightarrow> nat \<Rightarrow> nat \<Rightarrow> nat \<Rightarrow> real list \<Rightarrow> nat \<times> real list" where
  "PerpendicularDistance_loop fl DIM xs tol2 p0 p1 p2 result =
     (if p2 < length xs \<and> 0 < DIM then
        (if segment_distance2 fl (pt DIM xs p0) (pt DIM xs p2) (pt DIM xs p1) < tol2 then
           (if p1 + 2 * DIM = length xs then (p1 + 2 * DIM, CopyKey DIM xs p2 result)
            else PerpendicularDistance_loop fl DIM xs tol2 p2 (p1 + 2 * DIM) (p2 + 2 * DIM)
                   (CopyKey DIM xs p2 result))
         else PerpendicularDistance_loop fl DIM xs tol2 p1 p2 (p2 + DIM) (CopyKey DIM xs p1 result))
      else (p1, result))"
  by pat_completeness auto
termination
  by (relation "measure (\<lambda>(fl, DIM, xs, tol2, p0, p1, p2, result). length xs - p2)") auto

declare PerpendicularDistance_loop.simps [simp del]

definition PerpendicularDistance :: "float_arith \<Rightarrow> nat \<Rightarrow> real list \<Rightarrow> real \<Rightarrow> output_range" where
  "PerpendicularDistance fl DIM xs tol =
     (let coordCount = length xs;
          pointCount = pointCount_of DIM coordCount;
          tol2 = tol * tol
      in if coordCount mod DIM \<noteq> 0 \<or> pointCount < 3 \<or> tol2 = 0 then copy_input xs
         else let result = CopyKey DIM xs 0 [];
                  (p1, result) = PerpendicularDistance_loop fl DIM xs tol2 0 DIM (2 * DIM) result
              in finish (if p1 \<noteq> length xs then CopyKey DIM xs p1 result else result))"

text \<open>
  The repeated routine. A temporary array is modelled by what the pass wrote into it
  (\<open>written\<close>); the pass's coordinate count is the distance of the returned pointer from
  the array (\<open>ret\<close>), and the next pass reads that many coordinates. \<open>PD_passes\<close> is the
  loop \<open>while (--repeat)\<close> of the intermediate passes: \<open>Inl\<close> is the early return from
  inside the loop, \<open>Inr\<close> the array and count the final pass works on.
\<close>

function PD_passes :: "float_arith \<Rightarrow> nat \<Rightarrow> real \<Rightarrow> nat \<Rightarrow> real list \<Rightarrow> nat \<Rightarrow> output_range + real list \<times> nat" where
  "PD_passes fl DIM tol repeat tempPoly coordCount =
     (if repeat - 1 = 0 then Inr (tempPoly, coordCount)
      else let r = PerpendicularDistance fl DIM (take coordCount tempPoly) tol;
               tempCoordCount = ret r
           in if coordCount = tempCoordCount then Inl (copy_input (take coordCount tempPoly))
              else PD_passes fl DIM tol (repeat - 1) (written r) tempCoordCount)"
  by pat_completeness auto
termination
  by (relation "measure (\<lambda>(fl, DIM, tol, repeat, tempPoly, coordCount). repeat)") auto

declare PD_passes.simps [simp del]

definition PerpendicularDistance_repeat :: "float_arith \<Rightarrow> nat \<Rightarrow> real list \<Rightarrow> real \<Rightarrow> nat \<Rightarrow> output_range" where
  "PerpendicularDistance_repeat fl DIM xs tol repeat =
     (if repeat = 1 then PerpendicularDistance fl DIM xs tol
      else if repeat < 1 then copy_input xs
      else let coordCount = length xs;
               r = PerpendicularDistance fl DIM xs tol;
               tempPoly = written r;
               tempCoordCount = ret r
           in if coordCount = tempCoordCount then copy_input (take coordCount tempPoly)
              else if 1 < repeat - 1 then
                     (case PD_passes fl DIM tol (repeat - 1) tempPoly tempCoordCount of
                        Inl out \<Rightarrow> out
                      | Inr (tempPoly', coordCount') \<Rightarrow>
                          PerpendicularDistance fl DIM (take coordCount' tempPoly') tol)
                   else PerpendicularDistance fl DIM (take tempCoordCount tempPoly) tol)"

section \<open>Reumann-Witkam\<close>

text \<open>
  The test \<open>line_distance2 (p0, p1, pj) < tol2\<close>; a comparison with a value that is not
  a number is false.
\<close>

definition less_opt :: "real option \<Rightarrow> real \<Rightarrow> bool" where
  "less_opt d t = (case d of None \<Rightarrow> False | Some x \<Rightarrow> x < t)"

function ReumannWitkam_loop ::
  "float_arith \<Rightarrow> nat \<Rightarrow> real list \<Rightarrow> real \<Rightarrow> nat \<Rightarrow> nat \<Rightarrow> nat \<Rightarrow> nat \<Rightarrow> nat \<Rightarrow> real list \<Rightarrow> nat \<times> real list" where
  "ReumannWitkam_loop fl DIM xs tol2 pointCount j p0 p1 pj result =
     (if j < pointCount then
        (if less_opt (line_distance2 fl (pt DIM xs p0) (pt DIM xs p1) (pt DIM xs (pj + DIM))) tol2
         then ReumannWitkam_loop fl DIM xs tol2 pointCount (j + 1) p0 p1 (pj + DIM) result
         else ReumannWitkam_loop fl DIM xs tol2 pointCount (j + 1) pj (pj + DIM) (pj + DIM)
                (CopyKey DIM xs pj result))
      else (pj, result))"
  by pat_completeness auto
termination
  by (relation "measure (\<lambda>(fl, DIM, xs, tol2, pointCount, j, p0, p1, pj, result). pointCount - j)") auto

declare ReumannWitkam_loop.simps [simp del]

definition ReumannWitkam :: "float_arith \<Rightarrow> nat \<Rightarrow> real list \<Rightarrow> real \<Rightarrow> output_range" where
  "ReumannWitkam fl DIM xs tol =
     (let coordCount = length xs;
          pointCount = pointCount_of DIM coordCount;
          tol2 = tol * tol
      in if coordCount mod DIM \<noteq> 0 \<or> pointCount < 3 \<or> tol2 = 0 then copy_input xs
         else let result = CopyKey DIM xs 0 [];
                  (pj, result) = ReumannWitkam_loop fl DIM xs tol2 pointCount 2 0 DIM DIM result
              in finish (CopyKey DIM xs pj result))"

section \<open>Opheim\<close>

text \<open>
  The local variables of \<open>Opheim\<close> that live across loop iterations, with the output
  written so far. \<open>p_i\<close> and \<open>p_j\<close> are the source's \<open>pi\<close> and \<open>pj\<close>.
\<close>

record opheim_state =
  r0 :: nat
  r1 :: nat
  rayDefined :: bool
  p_i :: nat
  p_j :: nat
  result :: "real list"

text \<open>One iteration of the \<open>for\<close> loop.\<close>

definition Opheim_body :: "float_arith \<Rightarrow> nat \<Rightarrow> real list \<Rightarrow> real \<Rightarrow> real \<Rightarrow> opheim_state \<Rightarrow> opheim_state" where
  "Opheim_body fl DIM xs minTol2 maxTol2 s =
     (let s1 = s\<lparr>p_i := p_j s, p_j := p_j s + DIM\<rparr>
      in if \<not> rayDefined s1 \<and> point_distance2 (pt DIM xs (r0 s1)) (pt DIM xs (p_j s1)) < minTol2
         then s1
         else let s2 = (if \<not> rayDefined s1 then s1\<lparr>r1 := p_i s1, rayDefined := True\<rparr> else s1)
              in if point_distance2 (pt DIM xs (r0 s2)) (pt DIM xs (p_j s2)) < maxTol2 \<and>
                    ray_distance2 fl (pt DIM xs (r0 s2)) (pt DIM xs (r1 s2)) (pt DIM xs (p_j s2)) < minTol2
                 then s2
                 else s2\<lparr>result := CopyKey DIM xs (p_i s2) (result s2),
                         r0 := p_i s2, rayDefined := False\<rparr>)"

function Opheim_loop ::
  "float_arith \<Rightarrow> nat \<Rightarrow> real list \<Rightarrow> real \<Rightarrow> real \<Rightarrow> nat \<Rightarrow> nat \<Rightarrow> opheim_state \<Rightarrow> opheim_state" where
  "Opheim_loop fl DIM xs minTol2 maxTol2 pointCount j s =
     (if j < pointCount
      then Opheim_loop fl DIM xs minTol2 maxTol2 pointCount (j + 1) (Opheim_body fl DIM xs minTol2 maxTol2 s)
      else s)"
  by pat_completeness auto
termination
  by (relation "measure (\<lambda>(fl, DIM, xs, minTol2, maxTol2, pointCount, j, s). pointCount - j)") auto

declare Opheim_loop.simps [simp del]

definition Opheim_init :: "nat \<Rightarrow> real list \<Rightarrow> opheim_state" where
  "Opheim_init DIM xs =
     \<lparr>r0 = 0, r1 = 0, rayDefined = False, p_i = 0, p_j = DIM, result = CopyKey DIM xs 0 []\<rparr>"

definition Opheim :: "float_arith \<Rightarrow> nat \<Rightarrow> real list \<Rightarrow> real \<Rightarrow> real \<Rightarrow> output_range" where
  "Opheim fl DIM xs minTol maxTol =
     (let coordCount = length xs;
          pointCount = pointCount_of DIM coordCount;
          minTol2 = minTol * minTol;
          maxTol2 = maxTol * maxTol
      in if coordCount mod DIM \<noteq> 0 \<or> pointCount < 2 \<or> minTol2 = 0 \<or> maxTol2 = 0 then copy_input xs
         else let s = Opheim_loop fl DIM xs minTol2 maxTol2 pointCount 2 (Opheim_init DIM xs)
              in finish (CopyKey DIM xs (p_j s) (result s)))"

section \<open>Douglas-Peucker (DPHelper)\<close>

text \<open>
  The key array \<open>unsigned char keys []\<close> holds 0 or 1 for each point; it is a list of
  truth values here.
\<close>

lemma FindKey_loop_index:
  "FindKey_loop fl DIM coords first lst current keyInfo = keyInfo \<or>
   (current \<le> index (FindKey_loop fl DIM coords first lst current keyInfo) \<and>
    index (FindKey_loop fl DIM coords first lst current keyInfo) < lst \<and> 0 < DIM)"
proof (induction fl DIM coords first lst current keyInfo rule: FindKey_loop.induct)
  case (1 fl DIM coords first lst current keyInfo)
  show ?case
  proof (cases "current < lst \<and> 0 < DIM")
    case False
    then have "FindKey_loop fl DIM coords first lst current keyInfo = keyInfo"
      by (subst FindKey_loop.simps) auto
    then show ?thesis by simp
  next
    case True
    let ?d2 = "segment_distance2 fl (pt DIM coords first) (pt DIM coords lst) (pt DIM coords current)"
    show ?thesis
    proof (cases "?d2 < dist2 keyInfo")
      case less: True
      have "FindKey_loop fl DIM coords first lst current keyInfo =
            FindKey_loop fl DIM coords first lst (current + DIM) keyInfo"
        using True less by (subst FindKey_loop.simps) simp
      moreover note "1.IH"(1) [OF True refl less]
      ultimately show ?thesis by auto
    next
      case geq: False
      have "FindKey_loop fl DIM coords first lst current keyInfo =
            FindKey_loop fl DIM coords first lst (current + DIM) \<lparr>index = current, dist2 = ?d2\<rparr>"
        using True geq by (subst FindKey_loop.simps) simp
      moreover note "1.IH"(2) [OF True refl geq]
      ultimately show ?thesis using True by auto
    qed
  qed
qed

lemma FindKey_interior:
  assumes "0 < dist2 (FindKey fl DIM coords first lst)"
  shows "first < index (FindKey fl DIM coords first lst) \<and> index (FindKey fl DIM coords first lst) < lst"
proof -
  let ?k0 = "\<lparr>index = 0, dist2 = 0\<rparr> :: KeyInfo"
  from FindKey_loop_index [of fl DIM coords first lst "first + DIM" ?k0]
  show ?thesis
  proof
    assume "FindKey_loop fl DIM coords first lst (first + DIM) ?k0 = ?k0"
    with assms show ?thesis by (simp add: FindKey_def)
  next
    assume "first + DIM \<le> index (FindKey_loop fl DIM coords first lst (first + DIM) ?k0) \<and>
            index (FindKey_loop fl DIM coords first lst (first + DIM) ?k0) < lst \<and> 0 < DIM"
    then show ?thesis by (simp add: FindKey_def)
  qed
qed

record SubPoly =
  sub_first :: nat
  sub_last :: nat

text \<open>
  The loop of \<open>Approximate\<close> over the stack of sub-polylines; the head of the list is the
  top of the stack. The fields \<open>sub_first\<close> and \<open>sub_last\<close> are the source's
  \<open>first\<close> and \<open>last\<close>. \<open>tol2\<close> of the source is \<open>tol * tol\<close>.
\<close>

function Approximate_loop :: "float_arith \<Rightarrow> nat \<Rightarrow> real list \<Rightarrow> real \<Rightarrow> SubPoly list \<Rightarrow> bool list \<Rightarrow> bool list" where
  "Approximate_loop fl DIM coords tol [] keys = keys"
| "Approximate_loop fl DIM coords tol (subPoly # stack) keys =
     (let keyInfo = FindKey fl DIM coords (sub_first subPoly) (sub_last subPoly)
      in if index keyInfo \<noteq> sub_last subPoly \<and> tol * tol < dist2 keyInfo
         then Approximate_loop fl DIM coords tol
                (\<lparr>sub_first = sub_first subPoly, sub_last = index keyInfo\<rparr> #
                 \<lparr>sub_first = index keyInfo, sub_last = sub_last subPoly\<rparr> # stack)
                (keys[index keyInfo div DIM := True])
         else Approximate_loop fl DIM coords tol stack keys)"
  by pat_completeness auto
termination
proof (relation "measure (\<lambda>(fl, DIM, coords, tol, stack, keys).
         sum_list (map (\<lambda>sp. if sub_last sp - sub_first sp = 0 then 1 else 2 * (sub_last sp - sub_first sp) - 1) stack))",
       goal_cases)
  case 1
  show ?case by simp
next
  case (2 fl DIM coords tol subPoly stack keys keyInfo)
  have "0 \<le> tol * tol" by simp
  also from 2 have "tol * tol < dist2 (FindKey fl DIM coords (sub_first subPoly) (sub_last subPoly))" by simp
  finally have "0 < dist2 (FindKey fl DIM coords (sub_first subPoly) (sub_last subPoly))" .
  from FindKey_interior [OF this] 2(1) show ?case by auto
next
  case (3 fl DIM coords tol subPoly stack keys keyInfo)
  have "0 < (if sub_last subPoly - sub_first subPoly = 0 then 1 else 2 * (sub_last subPoly - sub_first subPoly) - 1)"
    by (cases "sub_last subPoly - sub_first subPoly") auto
  then show ?case by simp
qed

declare Approximate_loop.simps [simp del]

definition Approximate :: "float_arith \<Rightarrow> nat \<Rightarrow> real list \<Rightarrow> nat \<Rightarrow> real \<Rightarrow> bool list" where
  "Approximate fl DIM coords coordCount tol =
     (let pointCount = coordCount div DIM;
          keys = replicate pointCount False;
          keys = keys[0 := True];
          keys = keys[pointCount - 1 := True]
      in Approximate_loop fl DIM coords tol [\<lparr>sub_first = 0, sub_last = coordCount - DIM\<rparr>] keys)"

record SubPolyAlt = SubPoly +
  keyInfo :: KeyInfo

text \<open>
  Modelled from the spec: \<open>std::priority_queue <SubPolyAlt>\<close> belongs to the C++ standard
  library and is not part of the source. \<open>SubPolyAlt::operator<\<close> compares \<open>keyInfo.dist2\<close>,
  so the top is an entry of largest \<open>dist2\<close>. Which of several entries of equal \<open>dist2\<close>
  is on top is left to the heap; it is the parameter \<open>fifo\<close> of the model: the entry
  pushed first when \<open>fifo\<close> holds (the FIFO-stable tie-break of the spec's design notes,
  and what a binary heap does with two entries), the entry pushed last otherwise. The
  queue is the list of its entries in the order they were pushed.
\<close>

fun pq_max :: "bool \<Rightarrow> SubPolyAlt \<Rightarrow> SubPolyAlt list \<Rightarrow> SubPolyAlt" where
  "pq_max fifo best [] = best"
| "pq_max fifo best (e # q) =
     pq_max fifo (if dist2 (keyInfo best) < dist2 (keyInfo e) \<or>
                     (\<not> fifo \<and> dist2 (keyInfo best) = dist2 (keyInfo e))
                  then e else best) q"

definition pq_top :: "bool \<Rightarrow> SubPolyAlt list \<Rightarrow> SubPolyAlt" where
  "pq_top fifo q = pq_max fifo (hd q) (tl q)"

definition pq_pop :: "bool \<Rightarrow> SubPolyAlt list \<Rightarrow> SubPolyAlt list" where
  "pq_pop fifo q = remove1 (pq_top fifo q) q"

definition pq_push :: "SubPolyAlt \<Rightarrow> SubPolyAlt list \<Rightarrow> SubPolyAlt list" where
  "pq_push e q = q @ [e]"

lemma pq_max_in: "pq_max fifo best q \<in> set (best # q)"
  by (induction q arbitrary: best) auto

lemma pq_pop_length: "q \<noteq> [] \<Longrightarrow> length (pq_pop fifo q) < length q"
proof -
  assume "q \<noteq> []"
  then have "pq_top fifo q \<in> set q"
    using pq_max_in [of fifo "hd q" "tl q"] by (simp add: pq_top_def)
  then show ?thesis
    using \<open>q \<noteq> []\<close> by (simp add: pq_pop_def length_remove1 length_greater_0_conv)
qed

text \<open>
  The loop of \<open>ApproximateAlt\<close>. \<open>keyCount\<close> starts at 2 below \<open>countTol\<close> and the loop is
  left as soon as the two are equal, so \<open>keyCount < countTol\<close> at every test
  \<open>keyCount == countTol\<close>; the model leaves the loop too where \<open>countTol < keyCount\<close>.
\<close>

function ApproximateAlt_loop ::
  "float_arith \<Rightarrow> bool \<Rightarrow> nat \<Rightarrow> real list \<Rightarrow> nat \<Rightarrow> SubPolyAlt list \<Rightarrow> nat \<Rightarrow> bool list \<Rightarrow> bool list" where
  "ApproximateAlt_loop fl fifo DIM coords countTol queue keyCount keys =
     (if queue = [] then keys
      else let subPoly = pq_top fifo queue;
               queue' = pq_pop fifo queue
           in if index (keyInfo subPoly) \<noteq> sub_last subPoly then
                (let keys' = keys[index (keyInfo subPoly) div DIM := True];
                     keyCount' = keyCount + 1
                 in if keyCount' = countTol \<or> countTol < keyCount' then keys'
                    else let left = \<lparr>sub_first = sub_first subPoly, sub_last = index (keyInfo subPoly),
                                      keyInfo = FindKey fl DIM coords (sub_first subPoly) (index (keyInfo subPoly))\<rparr>;
                             right = \<lparr>sub_first = index (keyInfo subPoly), sub_last = sub_last subPoly,
                                       keyInfo = FindKey fl DIM coords (index (keyInfo subPoly)) (sub_last subPoly)\<rparr>
                         in ApproximateAlt_loop fl fifo DIM coords countTol
                              (pq_push right (pq_push left queue')) keyCount' keys')
              else ApproximateAlt_loop fl fifo DIM coords countTol queue' keyCount keys)"
  by pat_completeness auto
termination
  by (relation "inv_image (less_than <*lex*> less_than)
        (\<lambda>(fl, fifo, DIM, coords, countTol, queue, keyCount, keys). (countTol - keyCount, length queue))")
     (auto simp: pq_pop_length)

declare ApproximateAlt_loop.simps [simp del]

definition ApproximateAlt :: "float_arith \<Rightarrow> bool \<Rightarrow> nat \<Rightarrow> real list \<Rightarrow> nat \<Rightarrow> nat \<Rightarrow> bool list" where
  "ApproximateAlt fl fifo DIM coords coordCount countTol =
     (let pointCount = coordCount div DIM;
          keys = replicate pointCount False;
          keys = keys[0 := True];
          keys = keys[pointCount - 1 := True]
      in if countTol = 2 then keys
         else ApproximateAlt_loop fl fifo DIM coords countTol
                (pq_push \<lparr>sub_first = 0, sub_last = coordCount - DIM,
                          keyInfo = FindKey fl DIM coords 0 (coordCount - DIM)\<rparr> [])
                2 keys)"

text \<open>The loop that copies every point marked as a key, in the order of the points.\<close>

definition copy_keys :: "nat \<Rightarrow> real list \<Rightarrow> bool list \<Rightarrow> nat \<Rightarrow> real list" where
  "copy_keys DIM coords keys pointCount =
     concat (map (\<lambda>p. if keys ! p then pt DIM coords (p * DIM) else []) [0..<pointCount])"

definition DouglasPeucker :: "float_arith \<Rightarrow> nat \<Rightarrow> real list \<Rightarrow> real \<Rightarrow> output_range" where
  "DouglasPeucker fl DIM xs tol =
     (let coordCount = length xs;
          pointCount = pointCount_of DIM coordCount
      in if coordCount mod DIM \<noteq> 0 \<or> pointCount < 2 \<or> tol = 0 then copy_input xs
         else let r = RadialDistance DIM xs tol;
                  reduced = written r;
                  reducedCoordCount = ret r;
                  reducedPointCount = reducedCoordCount div DIM;
                  keys = Approximate fl DIM reduced reducedCoordCount tol
              in finish (copy_keys DIM reduced keys reducedPointCount))"

definition DouglasPeuckerAlt :: "float_arith \<Rightarrow> bool \<Rightarrow> nat \<Rightarrow> real list \<Rightarrow> nat \<Rightarrow> output_range" where
  "DouglasPeuckerAlt fl fifo DIM xs count =
     (let coordCount = length xs;
          pointCount = pointCount_of DIM coordCount
      in if coordCount mod DIM \<noteq> 0 \<or> pointCount \<le> count \<or> count < 2 then copy_input xs
         else let coords = xs;
                  keys = ApproximateAlt fl fifo DIM coords coordCount count
              in finish (copy_keys DIM coords keys pointCount))"

section \<open>Positional errors\<close>

record errors_result =
  errors :: "real list"
  valid :: bool

text \<open>
  The inner loop scores original points until one equals the end of the current
  segment; the outer loop walks the segments of the simplification. On validated input
  an iterator never passes the end of its sequence, so \<open>!=\<close> on iterators is \<open><\<close> on
  offsets. Both loops return the position reached in the original and the errors
  written so far.
\<close>

function CPE_inner ::
  "float_arith \<Rightarrow> nat \<Rightarrow> real list \<Rightarrow> real list \<Rightarrow> nat \<Rightarrow> nat \<Rightarrow> nat \<Rightarrow> real list \<Rightarrow> nat \<times> real list" where
  "CPE_inner fl DIM orig simp simplified_prev simplified_first original_first res =
     (if original_first < length orig \<and> 0 < DIM \<and>
         \<not> equal_points (pt DIM orig original_first) (pt DIM simp simplified_first)
      then CPE_inner fl DIM orig simp simplified_prev simplified_first (original_first + DIM)
             (res @ [segment_distance2 fl (pt DIM simp simplified_prev) (pt DIM simp simplified_first)
                       (pt DIM orig original_first)])
      else (original_first, res))"
  by pat_completeness auto
termination
  by (relation "measure (\<lambda>(fl, DIM, orig, simp, sp, sf, original_first, res). length orig - original_first)") auto

declare CPE_inner.simps [simp del]

function CPE_outer ::
  "float_arith \<Rightarrow> nat \<Rightarrow> real list \<Rightarrow> real list \<Rightarrow> nat \<Rightarrow> nat \<Rightarrow> nat \<Rightarrow> real list \<Rightarrow> nat \<times> real list" where
  "CPE_outer fl DIM orig simp simplified_prev simplified_first original_first res =
     (if simplified_first < length simp \<and> 0 < DIM
      then (let (original_first', res') =
                  CPE_inner fl DIM orig simp simplified_prev simplified_first original_first res
            in CPE_outer fl DIM orig simp simplified_first (simplified_first + DIM) original_first' res')
      else (original_first, res))"
  by pat_completeness auto
termination
  by (relation "measure (\<lambda>(fl, DIM, orig, simp, sp, simplified_first, original_first, res).
        length simp - simplified_first)") auto

declare CPE_outer.simps [simp del]

definition ComputePositionalErrors2 :: "float_arith \<Rightarrow> nat \<Rightarrow> real list \<Rightarrow> real list \<Rightarrow> errors_result" where
  "ComputePositionalErrors2 fl DIM orig simp =
     (let original_coordCount = length orig;
          original_pointCount = pointCount_of DIM original_coordCount;
          simplified_coordCount = length simp;
          simplified_pointCount = pointCount_of DIM simplified_coordCount
      in if original_coordCount mod DIM \<noteq> 0 \<or> original_pointCount < 2 \<or>
            simplified_coordCount mod DIM \<noteq> 0 \<or> simplified_pointCount < 2 \<or>
            original_pointCount < simplified_pointCount \<or>
            \<not> equal_points (pt DIM orig 0) (pt DIM simp 0)
         then \<lparr>errors = [], valid = False\<rparr>
         else let (original_first, res) = CPE_outer fl DIM orig simp 0 DIM 0 []
              in \<lparr>errors = (if original_first \<noteq> length orig then res @ [0] else res),
                  valid = (original_first \<noteq> length orig)\<rparr>)"

section \<open>The fallback on invalid input\<close>

text \<open>
  Each routine with a validation of its own stores the whole input in the output range
  when the validation fails; the iterator it returns is the initial \<open>result\<close>.
\<close>

lemma fallback_copies_input:
  assumes "length xs mod DIM \<noteq> 0 \<or> pointCount_of DIM (length xs) < 2"
  shows "NthPoint DIM xs n = copy_input xs"
    and "RadialDistance DIM xs tol = copy_input xs"
    and "PerpendicularDistance fl DIM xs tol = copy_input xs"
    and "ReumannWitkam fl DIM xs tol = copy_input xs"
    and "Opheim fl DIM xs minTol maxTol = copy_input xs"
    and "DouglasPeucker fl DIM xs tol = copy_input xs"
    and "DouglasPeuckerAlt fl fifo DIM xs count = copy_input xs"
  using assms
  by (auto simp: NthPoint_def RadialDistance_def PerpendicularDistance_def ReumannWitkam_def
      Opheim_def DouglasPeucker_def DouglasPeuckerAlt_def Let_def)

lemma fallback_zero_parameter:
  shows "n < 2 \<Longrightarrow> NthPoint DIM xs n = copy_input xs"
    and "RadialDistance DIM xs 0 = copy_input xs"
    and "PerpendicularDistance fl DIM xs 0 = copy_input xs"
    and "ReumannWitkam fl DIM xs 0 = copy_input xs"
    and "Opheim fl DIM xs 0 maxTol = copy_input xs"
    and "Opheim fl DIM xs minTol 0 = copy_input xs"
    and "DouglasPeucker fl DIM xs 0 = copy_input xs"
    and "count < 2 \<or> pointCount_of DIM (length xs) \<le> count \<Longrightarrow> DouglasPeuckerAlt fl fifo DIM xs count = copy_input xs"
    and "PerpendicularDistance_repeat fl DIM xs tol 0 = copy_input xs"
  by (auto simp: NthPoint_def RadialDistance_def PerpendicularDistance_def ReumannWitkam_def
      Opheim_def DouglasPeucker_def DouglasPeuckerAlt_def PerpendicularDistance_repeat_def Let_def)

text \<open>
  C1 (fallback law: on malformed input every routine copies the input to the output).
  The repeated perpendicular distance routine breaks it. It leaves the validation to the
  single pass, whose fallback returns the initial \<open>result\<close>; the repeated routine takes
  that for a pass that produced no coordinates and goes on with an empty polyline. For
  the two-point polyline \<open>(0,0), (1,1)\<close> in dimension 2 (fewer than the three points the
  routine needs), tolerance 1 and \<open>repeat = 2\<close>, nothing is written.
\<close>

theorem C1_PerpendicularDistance_repeat_drops_input:
  "pointCount_of 2 (length [0, 0, 1, 1 :: real]) < 3 \<and>
   written (PerpendicularDistance_repeat signed_integer 2 [0, 0, 1, 1] 1 2) = []"
  by code_simp

theorem C1_PerpendicularDistance_repeat_drops_input_witness:
  "written (PerpendicularDistance_repeat signed_integer 2 [0, 0, 1, 1] 1 2) \<noteq> [0, 0, 1, 1]"
  using C1_PerpendicularDistance_repeat_drops_input by simp

section \<open>Endpoints under the repeated perpendicular distance routine\<close>

text \<open>
  C2 (endpoint preservation: on valid input the first and the last point are retained).
  The same defect breaks it for the repeated perpendicular distance routine: once an
  intermediate pass is handed fewer than three points, its fallback is taken for an
  empty result. For the valid three-point polyline \<open>(0,0), (1,0), (2,0)\<close>, tolerance 1 and
  \<open>repeat = 3\<close>, nothing is written, so neither endpoint is in the output.
\<close>

theorem C2_PerpendicularDistance_repeat_loses_endpoints:
  "length [0, 0, 1, 0, 2, 0 :: real] mod 2 = 0 \<and>
   3 \<le> pointCount_of 2 (length [0, 0, 1, 0, 2, 0 :: real]) \<and>
   written (PerpendicularDistance_repeat signed_integer 2 [0, 0, 1, 0, 2, 0] 1 3) = []"
  by code_simp

theorem C2_PerpendicularDistance_repeat_loses_endpoints_witness:
  "take 2 (written (PerpendicularDistance_repeat signed_integer 2 [0, 0, 1, 0, 2, 0] 1 3)) \<noteq> take 2 [0, 0, 1, 0, 2, 0]"
  using C2_PerpendicularDistance_repeat_loses_endpoints by simp

section \<open>The point count of the count-bounded variant\<close>

text \<open>
  C4 (count-bound exactness: \<open>DouglasPeuckerAlt\<close> with target count \<open>C\<close>, \<open>2 \<le> C < n\<close>,
  writes exactly \<open>C\<close> points). For the five points \<open>(0,0), (0,4), (1,3), (2,2), (4,0)\<close> and
  \<open>C = 4\<close> the routine writes three points. After the first key \<open>(0,4)\<close> the left half
  has no interior point, for which \<open>FindKey\<close> returns index 0 and not \<open>last\<close>; the loop
  takes it for a key, marks point 0 again and counts it. The left half is popped before
  the right one, of equal \<open>dist2\<close>, when the queue returns the entry pushed first; when
  it returns the entry pushed last, the same happens to the mirrored polyline.
\<close>

theorem C4_DouglasPeuckerAlt_three_of_four:
  "DouglasPeuckerAlt signed_integer True 2 [0, 0, 0, 4, 1, 3, 2, 2, 4, 0] 4 = finish [0, 0, 0, 4, 4, 0] \<and>
   DouglasPeuckerAlt signed_integer False 2 [4, 0, 2, 2, 1, 3, 0, 4, 0, 0] 4 = finish [4, 0, 0, 4, 0, 0]"
  by code_simp

theorem C4_DouglasPeuckerAlt_three_of_four_witness:
  "length (written (DouglasPeuckerAlt signed_integer True 2 [0, 0, 0, 4, 1, 3, 2, 2, 4, 0] 4)) = 3 * 2 \<and>
   length (written (DouglasPeuckerAlt signed_integer False 2 [4, 0, 2, 2, 1, 3, 0, 4, 0, 0] 4)) = 3 * 2"
  using C4_DouglasPeuckerAlt_three_of_four by (simp add: finish_def)

section \<open>FindKey on a sub-range without interior point\<close>

text \<open>
  When no point lies strictly between \<open>first\<close> and \<open>last\<close> the loop body never runs and
  the default-constructed \<open>KeyInfo\<close> is returned.
\<close>

lemma FindKey_no_interior:
  "lst \<le> first + DIM \<Longrightarrow> FindKey fl DIM coords first lst = \<lparr>index = 0, dist2 = 0\<rparr>"
  unfolding FindKey_def by (subst FindKey_loop.simps) simp

text \<open>
  C6 (\<open>FindKey\<close> returns \<open>index = last\<close> exactly when the sub-range has no interior
  point). The key starts as \<open>KeyInfo ()\<close>, index 0 and distance 0, and a sub-range
  without interior point leaves it so: for the two adjacent points at offsets 0 and 2
  the index returned is 0, not 2.
\<close>

theorem C6_FindKey_no_interior_returns_zero:
  "FindKey signed_integer 2 [0, 0, 1, 1] 0 2 = \<lparr>index = 0, dist2 = 0\<rparr>"
  by code_simp

theorem C6_FindKey_no_interior_returns_zero_witness:
  "index (FindKey signed_integer 2 [0, 0, 1, 1] 0 2) \<noteq> 2"
  using C6_FindKey_no_interior_returns_zero by simp

section \<open>The number of positional errors\<close>

text \<open>
  C10 (when \<open>valid\<close> is true, one error is written for each original point). The last
  point of the simplification may match an original point before the last one; the
  scan stops there with \<open>valid = true\<close>. For the original \<open>(0,0), (1,1), (2,0)\<close> and the
  simplification \<open>(0,0), (1,1)\<close> two errors are written for three points.
\<close>

theorem C10_errors_fewer_than_points:
  "ComputePositionalErrors2 signed_integer 2 [0, 0, 1, 1, 2, 0] [0, 0, 1, 1] = \<lparr>errors = [0, 0], valid = True\<rparr>"
  by code_simp

theorem C10_errors_fewer_than_points_witness:
  "valid (ComputePositionalErrors2 signed_integer 2 [0, 0, 1, 1, 2, 0] [0, 0, 1, 1]) \<and>
   length (errors (ComputePositionalErrors2 signed_integer 2 [0, 0, 1, 1, 2, 0] [0, 0, 1, 1])) <
     pointCount_of 2 (length [0, 0, 1, 1, 2, 0 :: real])"
  using C10_errors_fewer_than_points by (simp add: pointCount_of_def)

section \<open>Which key FindKey returns\<close>

text \<open>
  \<open>scanned DIM start lst c\<close>: the loop \<open>for (current = start; current < lst; current += DIM)\<close>
  visits the offset \<open>c\<close>. The interior points of the sub-range \<open>[first, lst]\<close> are the
  offsets scanned from \<open>first + DIM\<close>.
\<close>

definition scanned :: "nat \<Rightarrow> nat \<Rightarrow> nat \<Rightarrow> nat \<Rightarrow> bool" where
  "scanned DIM start lst c = (start \<le> c \<and> c < lst \<and> DIM dvd (c - start))"

lemma scanned_step:
  assumes "0 < DIM" "start < lst"
  shows "scanned DIM start lst c \<longleftrightarrow> c = start \<or> scanned DIM (start + DIM) lst c"
proof
  assume s: "scanned DIM start lst c"
  show "c = start \<or> scanned DIM (start + DIM) lst c"
  proof (cases "c = start")
    case False
    with s have lt: "0 < c - start" and dv: "DIM dvd (c - start)" and "c < lst"
      by (auto simp: scanned_def)
    from dv lt have "DIM \<le> c - start" by (rule dvd_imp_le)
    moreover have "DIM dvd (c - (start + DIM))"
      using dv by (metis diff_diff_left dvd_diff_nat dvd_refl)
    ultimately show ?thesis using \<open>c < lst\<close> assms(1) by (auto simp: scanned_def)
  qed simp
next
  assume "c = start \<or> scanned DIM (start + DIM) lst c"
  then show "scanned DIM start lst c"
  proof
    assume "c = start" with assms show ?thesis by (simp add: scanned_def)
  next
    assume s: "scanned DIM (start + DIM) lst c"
    then have "start + DIM \<le> c" "c < lst" "DIM dvd (c - (start + DIM))" by (auto simp: scanned_def)
    moreover from this have "c - start = (c - (start + DIM)) + DIM" by simp
    moreover from calculation have "DIM dvd (c - start)" by (metis dvd_add dvd_refl)
    ultimately show ?thesis by (simp add: scanned_def)
  qed
qed

lemma scanned_lower: "scanned DIM start lst c \<Longrightarrow> start \<le> c"
  by (simp add: scanned_def)

lemma point_distance2_nonneg: "0 \<le> point_distance2 p q"
  unfolding point_distance2_def by (rule sum_list_nonneg) auto

lemma segment_distance2_nonneg: "0 \<le> segment_distance2 fl s1 s2 p"
  by (simp add: segment_distance2_def Let_def point_distance2_nonneg)

definition last_max :: "float_arith \<Rightarrow> nat \<Rightarrow> real list \<Rightarrow> nat \<Rightarrow> nat \<Rightarrow> nat \<Rightarrow> KeyInfo \<Rightarrow> KeyInfo \<Rightarrow> bool" where
  "last_max fl DIM coords first lst current ki k =
     ((k = ki \<and> (\<forall>c. scanned DIM current lst c \<longrightarrow>
          segment_distance2 fl (pt DIM coords first) (pt DIM coords lst) (pt DIM coords c) < dist2 ki)) \<or>
      (scanned DIM current lst (index k) \<and>
       dist2 k = segment_distance2 fl (pt DIM coords first) (pt DIM coords lst) (pt DIM coords (index k)) \<and>
       dist2 ki \<le> dist2 k \<and>
       (\<forall>c. scanned DIM current lst c \<longrightarrow>
          segment_distance2 fl (pt DIM coords first) (pt DIM coords lst) (pt DIM coords c) \<le> dist2 k) \<and>
       (\<forall>c. scanned DIM current lst c \<and> index k < c \<longrightarrow>
          segment_distance2 fl (pt DIM coords first) (pt DIM coords lst) (pt DIM coords c) < dist2 k)))"

lemma FindKey_loop_last_maximum:
  "0 < DIM \<Longrightarrow> last_max fl DIM coords first lst current ki (FindKey_loop fl DIM coords first lst current ki)"
proof (induction fl DIM coords first lst current ki rule: FindKey_loop.induct)
  case (1 fl DIM coords first lst current ki)
  let ?d = "\<lambda>c. segment_distance2 fl (pt DIM coords first) (pt DIM coords lst) (pt DIM coords c)"
  show ?case
  proof (cases "current < lst")
    case False
    then have "FindKey_loop fl DIM coords first lst current ki = ki"
      by (subst FindKey_loop.simps) auto
    moreover from False have "\<not> scanned DIM current lst c" for c by (auto simp: scanned_def)
    ultimately show ?thesis by (simp add: last_max_def)
  next
    case True
    with 1(3) have cond: "current < lst \<and> 0 < DIM" by simp
    note step = scanned_step [OF 1(3) True]
    show ?thesis
    proof (cases "?d current < dist2 ki")
      case less: True
      have eq: "FindKey_loop fl DIM coords first lst current ki =
            FindKey_loop fl DIM coords first lst (current + DIM) ki"
        using cond less by (subst FindKey_loop.simps) simp
      from "1.IH"(1) [OF cond refl less 1(3)]
      have "last_max fl DIM coords first lst (current + DIM) ki (FindKey_loop fl DIM coords first lst (current + DIM) ki)" .
      then show ?thesis unfolding eq using less
        by (auto simp: last_max_def step dest: scanned_lower)
    next
      case geq: False
      let ?ki = "\<lparr>index = current, dist2 = ?d current\<rparr>"
      have eq: "FindKey_loop fl DIM coords first lst current ki =
            FindKey_loop fl DIM coords first lst (current + DIM) ?ki"
        using cond geq by (subst FindKey_loop.simps) simp
      from "1.IH"(2) [OF cond refl geq 1(3)]
      have "last_max fl DIM coords first lst (current + DIM) ?ki (FindKey_loop fl DIM coords first lst (current + DIM) ?ki)" .
      then show ?thesis unfolding eq using geq
        by (auto simp: last_max_def step dest: scanned_lower)
    qed
  qed
qed

text \<open>
  C5, as the claim states it, fails: among interior points of equal, maximal distance
  \<open>FindKey\<close> returns the last, not the first. In the polyline \<open>(0,0), (1,1), (3,1), (4,0)\<close>
  the points at offsets 2 and 4 are both at squared distance 1 from the segment of the
  endpoints, and the key is the one at offset 4.
\<close>

theorem C5_first_maximum_counterexample:
  "segment_distance2 signed_integer (pt 2 [0, 0, 1, 1, 3, 1, 4, 0] 0) (pt 2 [0, 0, 1, 1, 3, 1, 4, 0] 6)
     (pt 2 [0, 0, 1, 1, 3, 1, 4, 0] 2) = 1 \<and>
   segment_distance2 signed_integer (pt 2 [0, 0, 1, 1, 3, 1, 4, 0] 0) (pt 2 [0, 0, 1, 1, 3, 1, 4, 0] 6)
     (pt 2 [0, 0, 1, 1, 3, 1, 4, 0] 4) = 1 \<and>
   index (FindKey signed_integer 2 [0, 0, 1, 1, 3, 1, 4, 0] 0 6) = 4"
  by code_simp

text \<open>
  C5, amended: for a sub-range with at least one interior point, \<open>FindKey\<close> returns an
  interior point together with its squared segment distance; no interior point is
  further from the segment, and every interior point after the key is strictly nearer.
  So the key is the last interior point of maximal distance: the loop skips a point
  only when its distance is strictly less than the running maximum.
\<close>

theorem C5_FindKey_returns_last_maximum:
  assumes "0 < DIM" and "first + DIM < lst"
  shows "scanned DIM (first + DIM) lst (index (FindKey fl DIM coords first lst)) \<and>
         dist2 (FindKey fl DIM coords first lst) =
           segment_distance2 fl (pt DIM coords first) (pt DIM coords lst)
             (pt DIM coords (index (FindKey fl DIM coords first lst))) \<and>
         (\<forall>c. scanned DIM (first + DIM) lst c \<longrightarrow>
            segment_distance2 fl (pt DIM coords first) (pt DIM coords lst) (pt DIM coords c)
              \<le> dist2 (FindKey fl DIM coords first lst)) \<and>
         (\<forall>c. scanned DIM (first + DIM) lst c \<and> index (FindKey fl DIM coords first lst) < c \<longrightarrow>
            segment_distance2 fl (pt DIM coords first) (pt DIM coords lst) (pt DIM coords c)
              < dist2 (FindKey fl DIM coords first lst))"
proof -
  let ?k0 = "\<lparr>index = 0, dist2 = 0\<rparr> :: KeyInfo"
  have "scanned DIM (first + DIM) lst (first + DIM)"
    using assms by (simp add: scanned_def)
  moreover have "\<not> segment_distance2 fl (pt DIM coords first) (pt DIM coords lst)
                     (pt DIM coords (first + DIM)) < dist2 ?k0"
    using segment_distance2_nonneg [of fl "pt DIM coords first" "pt DIM coords lst" "pt DIM coords (first + DIM)"]
    by simp
  ultimately have "\<not> (\<forall>c. scanned DIM (first + DIM) lst c \<longrightarrow>
      segment_distance2 fl (pt DIM coords first) (pt DIM coords lst) (pt DIM coords c) < dist2 ?k0)"
    by blast
  with FindKey_loop_last_maximum [OF assms(1), of fl coords first lst "first + DIM" ?k0]
  show ?thesis
    unfolding last_max_def FindKey_def by blast
qed

theorem C5_FindKey_returns_last_maximum_witness:
  "(0::nat) < 2 \<and> (0::nat) + 2 < 6 \<and>
   scanned 2 (0 + 2) 6 (index (FindKey signed_integer 2 [0, 0, 1, 1, 3, 1, 4, 0] 0 6)) \<and>
   segment_distance2 signed_integer (pt 2 [0, 0, 1, 1, 3, 1, 4, 0] 0) (pt 2 [0, 0, 1, 1, 3, 1, 4, 0] 6)
     (pt 2 [0, 0, 1, 1, 3, 1, 4, 0] 2) \<le> dist2 (FindKey signed_integer 2 [0, 0, 1, 1, 3, 1, 4, 0] 0 6)"
proof -
  have h1: "(0::nat) < 2" by simp
  have h2: "(0::nat) + 2 < 6" by simp
  have s: "scanned 2 (0 + 2) 6 2" by (simp add: scanned_def)
  from C5_FindKey_returns_last_maximum [OF h1 h2, of signed_integer "[0, 0, 1, 1, 3, 1, 4, 0]"] s h1 h2
  show ?thesis by blast
qed

section \<open>How Opheim defines the ray\<close>

text \<open>
  C7, as the claim states it, fails in its second half: the point that defines the ray
  is not the first point at or beyond \<open>minTol\<close> but the point before it. In the polyline
  \<open>(0,0), (1,0), (12,0), (14,0)\<close> with \<open>minTol = 2\<close> and \<open>maxTol = 20\<close> the first iteration
  tests the point at offset 4, which is beyond \<open>minTol\<close> of the key at offset 0; the ray
  is then defined through the point at offset 2, which is within \<open>minTol\<close> of the key.
\<close>

theorem C7_ray_through_first_point_beyond_counterexample:
  "rayDefined (Opheim_body signed_integer 2 [0, 0, 1, 0, 12, 0, 14, 0] (2 * 2) (20 * 20)
                 (Opheim_init 2 [0, 0, 1, 0, 12, 0, 14, 0])) \<and>
   r1 (Opheim_body signed_integer 2 [0, 0, 1, 0, 12, 0, 14, 0] (2 * 2) (20 * 20)
         (Opheim_init 2 [0, 0, 1, 0, 12, 0, 14, 0])) = 2 \<and>
   point_distance2 (pt 2 [0, 0, 1, 0, 12, 0, 14, 0] 0) (pt 2 [0, 0, 1, 0, 12, 0, 14, 0] 2) < 2 * 2 \<and>
   \<not> point_distance2 (pt 2 [0, 0, 1, 0, 12, 0, 14, 0] 0) (pt 2 [0, 0, 1, 0, 12, 0, 14, 0] 4) < 2 * 2"
  by code_simp

text \<open>
  The state of the loop of \<open>Opheim\<close> when its counter is \<open>j\<close> is
  \<open>Opheim_loop DIM xs minTol2 maxTol2 j 2 (Opheim_init DIM xs)\<close>: the loop run up to \<open>j\<close>.
\<close>

lemma Opheim_loop_split:
  "j \<le> k \<Longrightarrow> k \<le> N \<Longrightarrow>
   Opheim_loop fl DIM xs a b N j s = Opheim_loop fl DIM xs a b N k (Opheim_loop fl DIM xs a b k j s)"
proof (induction "k - j" arbitrary: j s)
  case 0
  then have "j = k" by simp
  then show ?case by (subst (3) Opheim_loop.simps) simp
next
  case (Suc d)
  then have jk: "j < k" "j < N" by simp_all
  have "Opheim_loop fl DIM xs a b N j s = Opheim_loop fl DIM xs a b N (j + 1) (Opheim_body fl DIM xs a b s)"
    using jk by (subst Opheim_loop.simps) simp
  also have "\<dots> = Opheim_loop fl DIM xs a b N k (Opheim_loop fl DIM xs a b k (j + 1) (Opheim_body fl DIM xs a b s))"
    using Suc(1) [of "j + 1" "Opheim_body fl DIM xs a b s"] Suc(2-) by simp
  also have "Opheim_loop fl DIM xs a b k (j + 1) (Opheim_body fl DIM xs a b s) = Opheim_loop fl DIM xs a b k j s"
    using jk by (subst (2) Opheim_loop.simps) simp
  finally show ?case .
qed

lemma Opheim_loop_step:
  "2 \<le> j \<Longrightarrow>
   Opheim_loop fl DIM xs a b (j + 1) 2 s = Opheim_body fl DIM xs a b (Opheim_loop fl DIM xs a b j 2 s)"
proof -
  assume j: "2 \<le> j"
  have "Opheim_loop fl DIM xs a b (j + 1) 2 s =
        Opheim_loop fl DIM xs a b (j + 1) j (Opheim_loop fl DIM xs a b j 2 s)"
    using Opheim_loop_split [of 2 j "j + 1" fl] j by simp
  also have "\<dots> = Opheim_loop fl DIM xs a b (j + 1) (j + 1) (Opheim_body fl DIM xs a b (Opheim_loop fl DIM xs a b j 2 s))"
    by (subst Opheim_loop.simps) simp
  also have "\<dots> = Opheim_body fl DIM xs a b (Opheim_loop fl DIM xs a b j 2 s)"
    by (subst Opheim_loop.simps) simp
  finally show ?thesis .
qed

lemma Opheim_body_other:
  "\<not> (\<not> rayDefined s \<and> point_distance2 (pt DIM xs (r0 s)) (pt DIM xs (p_j s + DIM)) < minTol2) \<Longrightarrow>
   rayDefined (Opheim_body fl DIM xs minTol2 maxTol2 s) \<and> r0 (Opheim_body fl DIM xs minTol2 maxTol2 s) = r0 s \<or>
   \<not> rayDefined (Opheim_body fl DIM xs minTol2 maxTol2 s) \<and> r0 (Opheim_body fl DIM xs minTol2 maxTol2 s) = p_j s"
  by (cases "rayDefined s") (simp_all add: Opheim_body_def Let_def)

text \<open>
  The invariant of the loop at the test \<open>j < pointCount\<close>: \<open>pj\<close> is point \<open>j - 1\<close>, the key
  \<open>r0\<close> is a point \<open>q\<close> at least two points before point \<open>j\<close>, and while no ray is
  defined every point after the key's successor and before point \<open>j\<close> is within
  \<open>minTol\<close> of the key.
\<close>

definition Opheim_inv :: "nat \<Rightarrow> real list \<Rightarrow> real \<Rightarrow> nat \<Rightarrow> opheim_state \<Rightarrow> bool" where
  "Opheim_inv DIM xs minTol2 j s =
     (p_j s = (j - 1) * DIM \<and>
      (\<exists>q. r0 s = q * DIM \<and> q + 2 \<le> j \<and>
           (\<not> rayDefined s \<longrightarrow>
              (\<forall>m. q + 2 \<le> m \<and> m < j \<longrightarrow>
                 point_distance2 (pt DIM xs (q * DIM)) (pt DIM xs (m * DIM)) < minTol2))))"

lemma Opheim_inv_init: "Opheim_inv DIM xs minTol2 2 (Opheim_init DIM xs)"
  by (simp add: Opheim_inv_def Opheim_init_def)

lemma Opheim_inv_body:
  assumes "Opheim_inv DIM xs minTol2 j s" "2 \<le> j"
  shows "Opheim_inv DIM xs minTol2 (j + 1) (Opheim_body fl DIM xs minTol2 maxTol2 s)"
proof -
  from assms obtain q where pj: "p_j s = (j - 1) * DIM" and q: "r0 s = q * DIM" "q + 2 \<le> j"
    and ab: "\<not> rayDefined s \<Longrightarrow> \<forall>m. q + 2 \<le> m \<and> m < j \<longrightarrow>
                 point_distance2 (pt DIM xs (q * DIM)) (pt DIM xs (m * DIM)) < minTol2"
    unfolding Opheim_inv_def by blast
  have pj': "p_j s + DIM = j * DIM" using pj assms(2) by (cases j) (simp_all add: algebra_simps)
  have pjn: "p_j (Opheim_body fl DIM xs minTol2 maxTol2 s) = j * DIM"
    using pj' by (simp add: Opheim_body_def Let_def)
  consider (absorb) "\<not> rayDefined s" "point_distance2 (pt DIM xs (r0 s)) (pt DIM xs (p_j s + DIM)) < minTol2"
    | (key) "r0 (Opheim_body fl DIM xs minTol2 maxTol2 s) = p_j s" "\<not> rayDefined (Opheim_body fl DIM xs minTol2 maxTol2 s)"
    | (ray) "r0 (Opheim_body fl DIM xs minTol2 maxTol2 s) = r0 s" "rayDefined (Opheim_body fl DIM xs minTol2 maxTol2 s)"
    using Opheim_body_other [of s DIM xs minTol2 fl maxTol2] by blast
  then show ?thesis
  proof cases
    case absorb
    then have e: "Opheim_body fl DIM xs minTol2 maxTol2 s = s\<lparr>p_i := p_j s, p_j := p_j s + DIM\<rparr>"
      by (simp add: Opheim_body_def Let_def)
    have "\<forall>m. q + 2 \<le> m \<and> m < j + 1 \<longrightarrow>
                 point_distance2 (pt DIM xs (q * DIM)) (pt DIM xs (m * DIM)) < minTol2"
    proof (intro allI impI)
      fix m assume m: "q + 2 \<le> m \<and> m < j + 1"
      show "point_distance2 (pt DIM xs (q * DIM)) (pt DIM xs (m * DIM)) < minTol2"
      proof (cases "m = j")
        case True
        then show ?thesis using absorb(2) q(1) pj' by simp
      next
        case False
        then show ?thesis using ab [OF absorb(1)] m by simp
      qed
    qed
    then show ?thesis unfolding Opheim_inv_def e using q pj' by auto
  next
    case key
    have "r0 (Opheim_body fl DIM xs minTol2 maxTol2 s) = (j - 1) * DIM" using key(1) pj by simp
    moreover have "(j - 1) + 2 \<le> j + 1" using assms(2) by simp
    moreover have "\<forall>m. (j - 1) + 2 \<le> m \<and> m < j + 1 \<longrightarrow>
                 point_distance2 (pt DIM xs ((j - 1) * DIM)) (pt DIM xs (m * DIM)) < minTol2"
      using assms(2) by auto
    ultimately show ?thesis unfolding Opheim_inv_def using pjn by auto
  next
    case ray
    then show ?thesis unfolding Opheim_inv_def using pjn q by auto
  qed
qed

lemma Opheim_inv_loop:
  "2 \<le> j \<Longrightarrow> Opheim_inv DIM xs minTol2 j (Opheim_loop fl DIM xs minTol2 maxTol2 j 2 (Opheim_init DIM xs))"
proof (induction j rule: dec_induct)
  case base
  show ?case by (subst Opheim_loop.simps) (simp add: Opheim_inv_init)
next
  case (step n)
  show ?case
    using Opheim_inv_body [OF step.IH step.hyps(1)] Opheim_loop_step [OF step.hyps(1)]
    by (simp add: Suc_eq_plus1 [symmetric] del: Suc_eq_plus1)
qed

text \<open>
  C7, amended. Take the run of \<open>Opheim\<close> on valid input and an iteration \<open>j\<close> of its loop
  that starts in state \<open>s\<close> with no ray defined; \<open>s'\<close> is the state after the iteration,
  from which the run goes on. The point tested is point \<open>j\<close>, the one after \<open>pj\<close>. The
  key is a point \<open>q\<close> with \<open>q + 2 \<le> j\<close>, and the points \<open>q + 2, ..., j - 1\<close> have all been
  found within \<open>minTol\<close> of the key. If point \<open>j\<close> is within \<open>minTol\<close> of the key too, it
  is absorbed: the iteration only advances \<open>pi\<close> and \<open>pj\<close>. Otherwise the second point of
  the ray is point \<open>j - 1\<close>, the point just before the first one at or beyond \<open>minTol\<close>:
  the last absorbed point, or the key's successor \<open>q + 1\<close> when none was absorbed. The
  iteration ends either with that ray defined or with point \<open>j - 1\<close> as the new key.
\<close>

theorem C7_Opheim_ray_through_previous_point:
  assumes "length xs mod DIM = 0" and "N = pointCount_of DIM (length xs)"
    and "minTol * minTol \<noteq> 0" and "maxTol * maxTol \<noteq> 0"
    and "2 \<le> j" and "j < N"
    and "s = Opheim_loop fl DIM xs (minTol * minTol) (maxTol * maxTol) j 2 (Opheim_init DIM xs)"
    and "s' = Opheim_body fl DIM xs (minTol * minTol) (maxTol * maxTol) s"
    and "\<not> rayDefined s"
  shows "Opheim fl DIM xs minTol maxTol =
           finish (CopyKey DIM xs
             (p_j (Opheim_loop fl DIM xs (minTol * minTol) (maxTol * maxTol) N (j + 1) s'))
             (result (Opheim_loop fl DIM xs (minTol * minTol) (maxTol * maxTol) N (j + 1) s'))) \<and>
         p_j s = (j - 1) * DIM \<and>
         (\<exists>q. r0 s = q * DIM \<and> q + 2 \<le> j \<and>
              (\<forall>m. q + 2 \<le> m \<and> m < j \<longrightarrow>
                 point_distance2 (pt DIM xs (r0 s)) (pt DIM xs (m * DIM)) < minTol * minTol)) \<and>
         (point_distance2 (pt DIM xs (r0 s)) (pt DIM xs (j * DIM)) < minTol * minTol \<longrightarrow>
            s' = s\<lparr>p_i := (j - 1) * DIM, p_j := j * DIM\<rparr>) \<and>
         (\<not> point_distance2 (pt DIM xs (r0 s)) (pt DIM xs (j * DIM)) < minTol * minTol \<longrightarrow>
            r1 s' = (j - 1) * DIM \<and>
            (rayDefined s' \<and> r0 s' = r0 s \<and> result s' = result s \<or>
             \<not> rayDefined s' \<and> r0 s' = (j - 1) * DIM \<and>
             result s' = CopyKey DIM xs ((j - 1) * DIM) (result s)))"
proof -
  let ?a = "minTol * minTol" and ?b = "maxTol * maxTol"
  have inv: "Opheim_inv DIM xs ?a j s"
    unfolding assms(7) by (rule Opheim_inv_loop [OF assms(5)])
  then obtain q where pj: "p_j s = (j - 1) * DIM" and q: "r0 s = q * DIM" "q + 2 \<le> j"
    and ab: "\<forall>m. q + 2 \<le> m \<and> m < j \<longrightarrow>
                 point_distance2 (pt DIM xs (q * DIM)) (pt DIM xs (m * DIM)) < ?a"
    unfolding Opheim_inv_def using assms(9) by blast
  have pj': "p_j s + DIM = j * DIM" using pj assms(5) by (cases j) (simp_all add: algebra_simps)
  have run: "Opheim_loop fl DIM xs ?a ?b N 2 (Opheim_init DIM xs) = Opheim_loop fl DIM xs ?a ?b N (j + 1) s'"
  proof -
    have "Opheim_loop fl DIM xs ?a ?b N 2 (Opheim_init DIM xs) = Opheim_loop fl DIM xs ?a ?b N j s"
      unfolding assms(7) using Opheim_loop_split [of 2 j N fl] assms(5,6) by simp
    also have "\<dots> = Opheim_loop fl DIM xs ?a ?b N (j + 1) s'"
      unfolding assms(8) using assms(6) by (subst Opheim_loop.simps) simp
    finally show ?thesis .
  qed
  have c1: "Opheim fl DIM xs minTol maxTol =
           finish (CopyKey DIM xs
             (p_j (Opheim_loop fl DIM xs ?a ?b N (j + 1) s'))
             (result (Opheim_loop fl DIM xs ?a ?b N (j + 1) s')))"
  proof -
    have "Opheim fl DIM xs minTol maxTol =
           finish (CopyKey DIM xs
             (p_j (Opheim_loop fl DIM xs ?a ?b N 2 (Opheim_init DIM xs)))
             (result (Opheim_loop fl DIM xs ?a ?b N 2 (Opheim_init DIM xs))))"
      using assms(1-6) by (simp add: Opheim_def Let_def)
    then show ?thesis by (simp only: run)
  qed
  have c3: "\<exists>q. r0 s = q * DIM \<and> q + 2 \<le> j \<and>
              (\<forall>m. q + 2 \<le> m \<and> m < j \<longrightarrow>
                 point_distance2 (pt DIM xs (r0 s)) (pt DIM xs (m * DIM)) < ?a)"
    using q ab by (intro exI [of _ q]) simp
  have c4: "point_distance2 (pt DIM xs (r0 s)) (pt DIM xs (j * DIM)) < ?a \<longrightarrow>
            s' = s\<lparr>p_i := (j - 1) * DIM, p_j := j * DIM\<rparr>"
    unfolding assms(8) using assms(9) pj pj' by (simp add: Opheim_body_def Let_def)
  have c5: "\<not> point_distance2 (pt DIM xs (r0 s)) (pt DIM xs (j * DIM)) < ?a \<longrightarrow>
            r1 s' = (j - 1) * DIM \<and>
            (rayDefined s' \<and> r0 s' = r0 s \<and> result s' = result s \<or>
             \<not> rayDefined s' \<and> r0 s' = (j - 1) * DIM \<and>
             result s' = CopyKey DIM xs ((j - 1) * DIM) (result s))"
    unfolding assms(8) using assms(9) pj pj' by (simp add: Opheim_body_def Let_def)
  from c1 pj c3 c4 c5 show ?thesis by blast
qed

theorem C7_Opheim_ray_through_previous_point_witness:
  "length [0, 0, 1, 0, 1, 1, 12, 0, 14, 0 :: real] mod 2 = 0 \<and>
   5 = pointCount_of 2 (length [0, 0, 1, 0, 1, 1, 12, 0, 14, 0 :: real]) \<and>
   (2 :: real) * 2 \<noteq> 0 \<and> (20 :: real) * 20 \<noteq> 0 \<and> (2 :: nat) \<le> 3 \<and> (3 :: nat) < 5 \<and>
   \<not> rayDefined (Opheim_loop signed_integer 2 [0, 0, 1, 0, 1, 1, 12, 0, 14, 0] (2 * 2) (20 * 20) 3 2
                   (Opheim_init 2 [0, 0, 1, 0, 1, 1, 12, 0, 14, 0])) \<and>
   point_distance2 (pt 2 [0, 0, 1, 0, 1, 1, 12, 0, 14, 0] 0) (pt 2 [0, 0, 1, 0, 1, 1, 12, 0, 14, 0] (2 * 2)) < 2 * 2 \<and>
   \<not> point_distance2 (pt 2 [0, 0, 1, 0, 1, 1, 12, 0, 14, 0] 0) (pt 2 [0, 0, 1, 0, 1, 1, 12, 0, 14, 0] (3 * 2)) < 2 * 2 \<and>
   r1 (Opheim_body signed_integer 2 [0, 0, 1, 0, 1, 1, 12, 0, 14, 0] (2 * 2) (20 * 20)
        (Opheim_loop signed_integer 2 [0, 0, 1, 0, 1, 1, 12, 0, 14, 0] (2 * 2) (20 * 20) 3 2
           (Opheim_init 2 [0, 0, 1, 0, 1, 1, 12, 0, 14, 0]))) = (3 - 1) * 2"
proof -
  let ?xs = "[0, 0, 1, 0, 1, 1, 12, 0, 14, 0 :: real]"
  let ?s = "Opheim_loop signed_integer 2 ?xs (2 * 2) (20 * 20) 3 2 (Opheim_init 2 ?xs)"
  have h1: "length ?xs mod 2 = 0" by simp
  have h2: "5 = pointCount_of 2 (length ?xs)" by (simp add: pointCount_of_def)
  have h3: "(2 :: real) * 2 \<noteq> 0" and h4: "(20 :: real) * 20 \<noteq> 0" by simp_all
  have h5: "(2 :: nat) \<le> 3" and h6: "(3 :: nat) < 5" by simp_all
  have h9: "\<not> rayDefined ?s" by code_simp
  have k: "r0 ?s = 0" by code_simp
  have near: "point_distance2 (pt 2 ?xs 0) (pt 2 ?xs (2 * 2)) < 2 * 2" by code_simp
  have far: "\<not> point_distance2 (pt 2 ?xs 0) (pt 2 ?xs (3 * 2)) < 2 * 2" by code_simp
  from C7_Opheim_ray_through_previous_point [OF h1 h2 h3 h4 h5 h6 refl refl h9] far k
  have "r1 (Opheim_body signed_integer 2 ?xs (2 * 2) (20 * 20) ?s) = (3 - 1) * 2" by simp
  with h1 h2 h3 h4 h5 h6 h9 near far show ?thesis by blast
qed

section \<open>Points of a coordinate sequence\<close>

text \<open>
  \<open>points DIM xs\<close> is the sequence of points of a coordinate sequence: the groups of \<open>DIM\<close>
  coordinates at the offsets \<open>0\<close>, \<open>DIM\<close>, \<open>2 * DIM\<close>, ...; a sequence whose length is not a
  multiple of \<open>DIM\<close> ends with a shorter group.
\<close>

definition points :: "nat \<Rightarrow> real list \<Rightarrow> real list list" where
  "points DIM xs = map (\<lambda>i. pt DIM xs (i * DIM)) [0..<(length xs + DIM - 1) div DIM]"

lemma ceil_div_exact: "0 < DIM \<Longrightarrow> (n * DIM + DIM - Suc 0) div DIM = (n::nat)"
proof -
  assume "0 < DIM"
  then obtain D where D: "DIM = Suc D" by (cases DIM) auto
  have "(D + n * Suc D) div Suc D = n + D div Suc D"
    using div_mult_self3 [of "Suc D" D n] by (simp del: mult_Suc_right mult_Suc)
  then have "(D + n * Suc D) div Suc D = n" by simp
  moreover have "n * Suc D + Suc D - Suc 0 = D + n * Suc D" by simp
  ultimately have "(n * Suc D + Suc D - Suc 0) div Suc D = n" by (simp only:)
  then show ?thesis using D by (simp only:)
qed

lemma points_length:
  assumes "0 < DIM" "length xs = n * DIM"
  shows "length (points DIM xs) = n"
  using assms by (simp add: points_def ceil_div_exact)

lemma points_nth: "i < length (points DIM xs) \<Longrightarrow> points DIM xs ! i = pt DIM xs (i * DIM)"
  by (simp add: points_def)

lemma pt_length: "i + DIM \<le> length xs \<Longrightarrow> length (pt DIM xs i) = DIM"
  by (simp add: pt_def)

lemma pt_length_wf:
  assumes "length xs = n * DIM" "i < n"
  shows "length (pt DIM xs (i * DIM)) = DIM"
proof -
  from assms(2) have "Suc i \<le> n" by simp
  then have "Suc i * DIM \<le> n * DIM" by (rule mult_le_mono1)
  with assms(1) show ?thesis by (simp add: pt_def)
qed

lemma equal_points_iff: "length p = length q \<Longrightarrow> equal_points p q \<longleftrightarrow> p = q"
  by (induction p q rule: list_induct2) auto

text \<open>
  The position the lock-step scan of \<open>ComputePositionalErrors2\<close> reaches, on sequences of
  points: for each point of the simplification in turn, the original points that differ
  from it are passed; \<open>scan\<close> returns the original points that are left.
\<close>

fun scan :: "'a list \<Rightarrow> 'a list \<Rightarrow> 'a list" where
  "scan [] os = os"
| "scan (s # ss) os = scan ss (dropWhile (\<lambda>p. p \<noteq> s) os)"

lemma CPE_inner_position:
  assumes "0 < DIM" "length orig = n * DIM" "length (pt DIM simp sf) = DIM"
  shows "i \<le> n \<Longrightarrow> fst (CPE_inner fl DIM orig simp sp sf (i * DIM) res) =
     (i + length (takeWhile (\<lambda>p. p \<noteq> pt DIM simp sf) (drop i (points DIM orig)))) * DIM"
proof (induction "n - i" arbitrary: i res)
  case 0
  then have "i = n" by simp
  then show ?case using assms by (subst CPE_inner.simps) (simp add: points_length)
next
  case (Suc d)
  then have lt: "i < n" by simp
  then have lt': "i * DIM < length orig" using assms by simp
  have len: "length (points DIM orig) = n" using assms by (simp add: points_length)
  have nth: "points DIM orig ! i = pt DIM orig (i * DIM)" using lt len by (simp add: points_nth)
  have dr: "drop i (points DIM orig) = pt DIM orig (i * DIM) # drop (Suc i) (points DIM orig)"
    using lt len nth by (metis Cons_nth_drop_Suc)
  have eq: "equal_points (pt DIM orig (i * DIM)) (pt DIM simp sf) \<longleftrightarrow> pt DIM orig (i * DIM) = pt DIM simp sf"
    using assms lt by (simp add: equal_points_iff pt_length_wf)
  show ?case
  proof (cases "pt DIM orig (i * DIM) = pt DIM simp sf")
    case True
    then show ?thesis using eq dr by (subst CPE_inner.simps) simp
  next
    case False
    have "fst (CPE_inner fl DIM orig simp sp sf (i * DIM) res) =
          fst (CPE_inner fl DIM orig simp sp sf (Suc i * DIM)
            (res @ [segment_distance2 fl (pt DIM simp sp) (pt DIM simp sf) (pt DIM orig (i * DIM))]))"
      using False eq lt' assms(1) by (subst CPE_inner.simps) (simp add: add.commute)
    also have "\<dots> = (Suc i + length (takeWhile (\<lambda>p. p \<noteq> pt DIM simp sf) (drop (Suc i) (points DIM orig)))) * DIM"
      using Suc lt by (intro Suc.hyps(1)) auto
    finally show ?thesis using False dr by simp
  qed
qed

lemma CPE_outer_position:
  assumes "0 < DIM" "length orig = n * DIM" "length simp = m * DIM"
  shows "k \<le> m \<Longrightarrow> i \<le> n \<Longrightarrow> fst (CPE_outer fl DIM orig simp sp (k * DIM) (i * DIM) res) =
     (n - length (scan (drop k (points DIM simp)) (drop i (points DIM orig)))) * DIM"
proof (induction "m - k" arbitrary: k i sp res)
  case 0
  then have "k = m" by simp
  then show ?case using assms 0 by (subst CPE_outer.simps) (simp add: points_length)
next
  case (Suc d)
  then have lt: "k < m" by simp
  then have lt': "k * DIM < length simp" using assms by simp
  have len: "length (points DIM simp) = m" using assms by (simp add: points_length)
  have leno: "length (points DIM orig) = n" using assms by (simp add: points_length)
  have dr: "drop k (points DIM simp) = pt DIM simp (k * DIM) # drop (Suc k) (points DIM simp)"
    using lt len by (metis Cons_nth_drop_Suc points_nth)
  have sl: "length (pt DIM simp (k * DIM)) = DIM" using assms lt by (simp add: pt_length_wf)
  let ?t = "length (takeWhile (\<lambda>p. p \<noteq> pt DIM simp (k * DIM)) (drop i (points DIM orig)))"
  obtain i' res' where inner: "CPE_inner fl DIM orig simp sp (k * DIM) (i * DIM) res = (i', res')"
    by fastforce
  from CPE_inner_position [OF assms(1,2) sl Suc.prems(2), of fl sp res] inner
  have i': "i' = (i + ?t) * DIM" by simp
  have le: "i + ?t \<le> n"
    using length_takeWhile_le [of "\<lambda>p. p \<noteq> pt DIM simp (k * DIM)" "drop i (points DIM orig)"] leno Suc.prems(2)
    by simp
  have "fst (CPE_outer fl DIM orig simp sp (k * DIM) (i * DIM) res) =
        fst (CPE_outer fl DIM orig simp (k * DIM) (Suc k * DIM) ((i + ?t) * DIM) res')"
    using lt' assms(1) inner i' by (subst CPE_outer.simps) (simp add: add.commute)
  also have "\<dots> = (n - length (scan (drop (Suc k) (points DIM simp)) (drop (i + ?t) (points DIM orig)))) * DIM"
    using Suc lt le by (intro Suc.hyps(1)) auto
  also have "drop (i + ?t) (points DIM orig) = dropWhile (\<lambda>p. p \<noteq> pt DIM simp (k * DIM)) (drop i (points DIM orig))"
    by (simp add: dropWhile_eq_drop add.commute)
  finally show ?case using dr by simp
qed

section \<open>When positional errors are valid\<close>

text \<open>
  The spec's condition on the two sequences, in its own words. \<open>found_in_order ss os\<close>:
  every point of \<open>ss\<close> is found verbatim in \<open>os\<close>, in order, that is at positions that
  do not decrease (the scan does not move past a matched point, so two equal
  consecutive points of the simplification may match the same original point).
\<close>

definition found_in_order :: "'a list \<Rightarrow> 'a list \<Rightarrow> bool" where
  "found_in_order ss os =
     (\<exists>js. sorted js \<and> (\<forall>j \<in> set js. j < length os) \<and> map (\<lambda>j. os ! j) js = ss)"

lemma takeWhile_first_match:
  assumes "j < length os" "os ! j = s"
  shows "length (takeWhile (\<lambda>p. p \<noteq> s) os) \<le> j"
proof (rule ccontr)
  assume "\<not> ?thesis"
  then have lt: "j < length (takeWhile (\<lambda>p. p \<noteq> s) os)" by simp
  then have "takeWhile (\<lambda>p. p \<noteq> s) os ! j \<in> set (takeWhile (\<lambda>p. p \<noteq> s) os)" by simp
  then have "takeWhile (\<lambda>p. p \<noteq> s) os ! j \<noteq> s" by (auto dest: set_takeWhileD)
  with lt assms show False by (simp add: takeWhile_nth)
qed

lemma sorted_map_add: "sorted js \<Longrightarrow> sorted (map (\<lambda>j. d + j) js)" for d :: nat
  by (induction js) auto

lemma sorted_map_diff: "sorted js \<Longrightarrow> sorted (map (\<lambda>j. j - d) js)" for d :: nat
  by (induction js) (auto intro: diff_le_mono)

lemma scan_found_in_order: "scan ss os \<noteq> [] \<longleftrightarrow> os \<noteq> [] \<and> found_in_order ss os"
proof (induction ss arbitrary: os)
  case Nil
  show ?case by (simp add: found_in_order_def)
next
  case (Cons s ss)
  define d where "d = length (takeWhile (\<lambda>p. p \<noteq> s) os)"
  define os' where "os' = drop d os"
  have dw: "dropWhile (\<lambda>p. p \<noteq> s) os = os'" by (simp add: dropWhile_eq_drop d_def os'_def)
  have nth': "os' ! j = os ! (d + j)" if "d \<le> length os" for j
    using that by (simp add: os'_def)
  have len': "length os' = length os - d" by (simp add: os'_def)
  have "(os' \<noteq> [] \<and> found_in_order ss os') \<longleftrightarrow> (os \<noteq> [] \<and> found_in_order (s # ss) os)"
  proof
    assume a: "os' \<noteq> [] \<and> found_in_order ss os'"
    then have ne: "dropWhile (\<lambda>p. p \<noteq> s) os \<noteq> []" by (simp add: dw)
    from a have d: "d < length os" by (simp add: os'_def)
    have "hd os' = s" using hd_dropWhile [OF ne] by (simp add: dw)
    then have sd: "os ! d = s" using d by (simp add: os'_def hd_drop_conv_nth)
    from a have "\<exists>js. sorted js \<and> (\<forall>j \<in> set js. j < length os') \<and> map (\<lambda>j. os' ! j) js = ss"
      by (simp add: found_in_order_def)
    then obtain js where js0: "sorted js \<and> (\<forall>j \<in> set js. j < length os') \<and> map (\<lambda>j. os' ! j) js = ss" ..
    then have js: "sorted js" "\<forall>j \<in> set js. j < length os'" "map (\<lambda>j. os' ! j) js = ss"
      by (rule conjunct1, rule conjunct2 [THEN conjunct1], rule conjunct2 [THEN conjunct2])
    have f1: "sorted (d # map (\<lambda>j. d + j) js)" using js(1) by (simp add: sorted_map_add)
    have f2: "\<forall>j \<in> set (d # map (\<lambda>j. d + j) js). j < length os"
      using js(2) d by (auto simp: len')
    have f3: "map (\<lambda>j. os ! j) (d # map (\<lambda>j. d + j) js) = s # ss"
    proof -
      have "map (\<lambda>j. os ! (d + j)) js = map (\<lambda>j. os' ! j) js"
        using d by (simp add: nth')
      then show ?thesis using sd js(3) by (simp add: comp_def)
    qed
    have "found_in_order (s # ss) os" unfolding found_in_order_def
      by (rule exI [of _ "d # map (\<lambda>j. d + j) js"]) (intro conjI f1 f2 f3)
    with d show "os \<noteq> [] \<and> found_in_order (s # ss) os" by auto
  next
    assume a: "os \<noteq> [] \<and> found_in_order (s # ss) os"
    then have "\<exists>js. sorted js \<and> (\<forall>j \<in> set js. j < length os) \<and> map (\<lambda>j. os ! j) js = s # ss"
      by (simp add: found_in_order_def)
    then obtain js where js0: "sorted js \<and> (\<forall>j \<in> set js. j < length os) \<and> map (\<lambda>j. os ! j) js = s # ss" ..
    then have js: "sorted js" "\<forall>j \<in> set js. j < length os" "map (\<lambda>j. os ! j) js = s # ss"
      by (rule conjunct1, rule conjunct2 [THEN conjunct1], rule conjunct2 [THEN conjunct2])
    then obtain j js' where jj: "js = j # js'" by (cases js) auto
    with js have j: "j < length os" "os ! j = s" and js': "sorted js'" "\<forall>x \<in> set js'. j \<le> x"
      "\<forall>x \<in> set js'. x < length os" "map (\<lambda>j. os ! j) js' = ss"
      by auto
    have dj: "d \<le> j" unfolding d_def using takeWhile_first_match [OF j] .
    have g1: "sorted (map (\<lambda>x. x - d) js')" using js'(1) by (rule sorted_map_diff)
    have g2: "\<forall>x \<in> set (map (\<lambda>x. x - d) js'). x < length os'"
      using js'(2,3) dj j(1) by (auto simp: len')
    have g3: "map (\<lambda>j. os' ! j) (map (\<lambda>x. x - d) js') = ss"
    proof -
      have "os' ! (x - d) = os ! x" if "x \<in> set js'" for x
      proof -
        from that js'(2) dj have "d \<le> x" by auto
        moreover have "d \<le> length os" using dj j(1) by simp
        ultimately show ?thesis by (simp add: nth')
      qed
      then have "map (\<lambda>j. os' ! j) (map (\<lambda>x. x - d) js') = map (\<lambda>j. os ! j) js'"
        by (simp add: comp_def)
      then show ?thesis using js'(4) by simp
    qed
    have "found_in_order ss os'" unfolding found_in_order_def
      by (rule exI [of _ "map (\<lambda>x. x - d) js'"]) (intro conjI g1 g2 g3)
    moreover have "os' \<noteq> []" using dj j(1) by (simp add: os'_def)
    ultimately show "os' \<noteq> [] \<and> found_in_order ss os'" by simp
  qed
  then show ?case using Cons.IH [of os'] by (simp add: dw)
qed


text \<open>
  \<open>valid_pair\<close>: both sequences are well formed with at least two points each, the
  original has at least as many points as the simplification, the first points are
  identical, and the points of the simplification are found in order in the original.
\<close>

definition valid_pair :: "nat \<Rightarrow> real list \<Rightarrow> real list \<Rightarrow> bool" where
  "valid_pair DIM orig simp =
     (length orig mod DIM = 0 \<and> 2 \<le> pointCount_of DIM (length orig) \<and>
      length simp mod DIM = 0 \<and> 2 \<le> pointCount_of DIM (length simp) \<and>
      pointCount_of DIM (length simp) \<le> pointCount_of DIM (length orig) \<and>
      pt DIM orig 0 = pt DIM simp 0 \<and>
      found_in_order (points DIM simp) (points DIM orig))"

lemma well_formed_length:
  assumes "length xs mod DIM = 0" "2 \<le> pointCount_of DIM (length xs)"
  shows "0 < DIM" and "length xs = pointCount_of DIM (length xs) * DIM"
proof -
  show d: "0 < DIM" using assms(2) by (cases "DIM = 0") (auto simp: pointCount_of_def)
  show "length xs = pointCount_of DIM (length xs) * DIM"
    using assms(1) d by (auto simp: pointCount_of_def)
qed

lemma found_in_order_first:
  assumes "ss \<noteq> []" "os \<noteq> []" "hd ss = hd os"
  shows "found_in_order ss os \<longleftrightarrow> found_in_order (tl ss) os"
proof
  assume "found_in_order ss os"
  then have "\<exists>js. sorted js \<and> (\<forall>j \<in> set js. j < length os) \<and> map (\<lambda>j. os ! j) js = ss"
    by (simp add: found_in_order_def)
  then obtain js where js0: "sorted js \<and> (\<forall>j \<in> set js. j < length os) \<and> map (\<lambda>j. os ! j) js = ss" ..
  with assms(1) obtain j js' where jj: "js = j # js'" by (cases js) auto
  have g1: "sorted js'" using js0 jj by simp
  have g2: "\<forall>j \<in> set js'. j < length os" using js0 jj by simp
  have g3: "map (\<lambda>j. os ! j) js' = tl ss" using js0 jj by auto
  show "found_in_order (tl ss) os" unfolding found_in_order_def
    by (rule exI [of _ js']) (intro conjI g1 g2 g3)
next
  assume "found_in_order (tl ss) os"
  then have "\<exists>js. sorted js \<and> (\<forall>j \<in> set js. j < length os) \<and> map (\<lambda>j. os ! j) js = tl ss"
    by (simp add: found_in_order_def)
  then obtain js where js0: "sorted js \<and> (\<forall>j \<in> set js. j < length os) \<and> map (\<lambda>j. os ! j) js = tl ss" ..
  have f1: "sorted (0 # js)" using js0 by simp
  have f2: "\<forall>j \<in> set (0 # js). j < length os" using js0 assms(2) by simp
  have "os ! 0 = hd ss" using assms(2,3) by (simp add: hd_conv_nth)
  then have f3: "map (\<lambda>j. os ! j) (0 # js) = ss" using js0 assms(1) by simp
  show "found_in_order ss os" unfolding found_in_order_def
    by (rule exI [of _ "0 # js"]) (intro conjI f1 f2 f3)
qed

text \<open>
  C8: \<open>ComputePositionalErrors2\<close> sets \<open>valid\<close> to false exactly when the two sequences
  violate validity: a coordinate count that is not a multiple of \<open>DIM\<close>, fewer than two
  points, more points in the simplification than in the original, different first
  points, or a point of the simplification that is not found verbatim, in order, in the
  original; it sets \<open>valid\<close> to true otherwise.
\<close>

theorem C8_valid_iff_valid_pair: "valid (ComputePositionalErrors2 fl DIM orig simp) \<longleftrightarrow> valid_pair DIM orig simp"
proof (cases "length orig mod DIM = 0 \<and> 2 \<le> pointCount_of DIM (length orig) \<and>
              length simp mod DIM = 0 \<and> 2 \<le> pointCount_of DIM (length simp)")
  case False
  then have "\<not> valid (ComputePositionalErrors2 fl DIM orig simp)"
    by (auto simp: ComputePositionalErrors2_def Let_def)
  moreover from False have "\<not> valid_pair DIM orig simp" by (auto simp: valid_pair_def)
  ultimately show ?thesis by simp
next
  case True
  define n where "n = pointCount_of DIM (length orig)"
  define m where "m = pointCount_of DIM (length simp)"
  from True have D: "0 < DIM" and lo: "length orig = n * DIM" and ls: "length simp = m * DIM"
    and n2: "2 \<le> n" and m2: "2 \<le> m"
    using well_formed_length [of orig DIM] well_formed_length [of simp DIM]
    by (auto simp: n_def m_def)
  have lenO: "length (points DIM orig) = n" and lenS: "length (points DIM simp) = m"
    using D lo ls by (simp_all add: points_length)
  have p0: "length (pt DIM orig 0) = DIM" "length (pt DIM simp 0) = DIM"
    using pt_length_wf [OF lo, of 0] pt_length_wf [OF ls, of 0] n2 m2 by simp_all
  have eq0: "equal_points (pt DIM orig 0) (pt DIM simp 0) \<longleftrightarrow> pt DIM orig 0 = pt DIM simp 0"
    using p0 by (simp add: equal_points_iff)
  show ?thesis
  proof (cases "m \<le> n \<and> pt DIM orig 0 = pt DIM simp 0")
    case False
    then have "\<not> valid (ComputePositionalErrors2 fl DIM orig simp)"
      using eq0 by (auto simp: ComputePositionalErrors2_def Let_def n_def m_def)
    moreover from False have "\<not> valid_pair DIM orig simp" by (auto simp: valid_pair_def n_def m_def)
    ultimately show ?thesis by simp
  next
    case good: True
    have pos: "fst (CPE_outer fl DIM orig simp 0 DIM 0 []) =
               (n - length (scan (tl (points DIM simp)) (points DIM orig))) * DIM"
      using CPE_outer_position [OF D lo ls, of 1 0 fl 0 "[]"] m2 by (simp add: drop_Suc)
    have ne: "points DIM simp \<noteq> []" "points DIM orig \<noteq> []" using lenO lenS n2 m2 by auto
    have "points DIM simp ! 0 = pt DIM simp (0 * DIM)" "points DIM orig ! 0 = pt DIM orig (0 * DIM)"
      using lenO lenS n2 m2 by (simp_all add: points_nth)
    then have hd0: "hd (points DIM simp) = hd (points DIM orig)"
      using good ne by (simp add: hd_conv_nth)
    have "valid (ComputePositionalErrors2 fl DIM orig simp) \<longleftrightarrow>
          fst (CPE_outer fl DIM orig simp 0 DIM 0 []) \<noteq> length orig"
      using True good eq0
      by (auto simp: ComputePositionalErrors2_def Let_def n_def m_def split: prod.splits)
    also have "\<dots> \<longleftrightarrow> scan (tl (points DIM simp)) (points DIM orig) \<noteq> []"
      using D n2 by (cases "scan (tl (points DIM simp)) (points DIM orig)") (auto simp: pos lo)
    also have "\<dots> \<longleftrightarrow> found_in_order (tl (points DIM simp)) (points DIM orig)"
      using ne by (simp add: scan_found_in_order)
    also have "\<dots> \<longleftrightarrow> found_in_order (points DIM simp) (points DIM orig)"
      using found_in_order_first [OF ne hd0] by simp
    also have "\<dots> \<longleftrightarrow> valid_pair DIM orig simp"
      using True good by (simp add: valid_pair_def n_def m_def)
    finally show ?thesis .
  qed
qed

theorem C8_valid_iff_valid_pair_witness:
  "valid_pair 2 [0, 0, 1, 1, 2, 0] [0, 0, 2, 0] \<and> \<not> valid_pair 2 [0, 0, 1, 1, 2, 0] [0, 0, 3, 1]"
proof -
  have "valid (ComputePositionalErrors2 signed_integer 2 [0, 0, 1, 1, 2, 0] [0, 0, 2, 0])" by code_simp
  moreover have "\<not> valid (ComputePositionalErrors2 signed_integer 2 [0, 0, 1, 1, 2, 0] [0, 0, 3, 1])" by code_simp
  ultimately show ?thesis
    using C8_valid_iff_valid_pair [of signed_integer 2 "[0, 0, 1, 1, 2, 0]" "[0, 0, 2, 0]"]
      C8_valid_iff_valid_pair [of signed_integer 2 "[0, 0, 1, 1, 2, 0]" "[0, 0, 3, 1]"]
    by blast
qed

section \<open>Outputs are selections of input points\<close>

lemma subseq_nth_drop:
  assumes "lo \<le> i" "i < length ps" "subseq ks (drop (Suc i) ps)"
  shows "subseq (ps ! i # ks) (drop lo ps)"
proof -
  have "drop lo ps = take (i - lo) (drop lo ps) @ drop (i - lo) (drop lo ps)"
    by (rule append_take_drop_id [symmetric])
  also have "drop (i - lo) (drop lo ps) = drop i ps" using assms(1) by simp
  also have "drop i ps = ps ! i # drop (Suc i) ps" using assms(2) by (simp add: Cons_nth_drop_Suc)
  finally have "drop lo ps = take (i - lo) (drop lo ps) @ ps ! i # drop (Suc i) ps" .
  moreover have "subseq (ps ! i # ks) (ps ! i # drop (Suc i) ps)" using assms(3) by simp
  ultimately show ?thesis by (metis subseq_drop_many)
qed

lemma pt_concat:
  assumes "\<forall>p \<in> set ps. length p = DIM" "i < length ps"
  shows "pt DIM (concat ps) (i * DIM) = ps ! i"
  using assms
proof (induction ps arbitrary: i)
  case Nil
  then show ?case by simp
next
  case (Cons p ps)
  show ?case
  proof (cases i)
    case 0
    then show ?thesis using Cons.prems by (simp add: pt_def)
  next
    case (Suc i')
    have "pt DIM (concat (p # ps)) (i * DIM) = pt DIM (concat ps) (i' * DIM)"
      using Cons.prems Suc by (simp add: pt_def)
    then show ?thesis using Cons.IH [of i'] Cons.prems Suc by simp
  qed
qed

lemma length_concat_points: "\<forall>p \<in> set ps. length p = DIM \<Longrightarrow> length (concat ps) = length ps * DIM"
  by (induction ps) auto

lemma points_concat:
  assumes "0 < DIM" "\<forall>p \<in> set ps. length p = DIM"
  shows "points DIM (concat ps) = ps"
proof -
  have len: "length (points DIM (concat ps)) = length ps"
    using assms by (simp add: points_length length_concat_points)
  show ?thesis
  proof (rule nth_equalityI [OF len])
    fix i assume "i < length (points DIM (concat ps))"
    then show "points DIM (concat ps) ! i = ps ! i"
      using len assms(2) by (simp add: points_nth pt_concat)
  qed
qed

lemma points_all_length:
  assumes "0 < DIM" "length xs = n * DIM"
  shows "\<forall>p \<in> set (points DIM xs). length p = DIM"
proof
  fix p assume "p \<in> set (points DIM xs)"
  then obtain i where "i < length (points DIM xs)" "p = points DIM xs ! i"
    by (auto simp: in_set_conv_nth)
  then show "length p = DIM"
    using assms by (simp add: points_length points_nth pt_length_wf)
qed

lemma subseq_set_length:
  "subseq ks ps \<Longrightarrow> \<forall>p \<in> set ps. length p = DIM \<Longrightarrow> \<forall>p \<in> set ks. length p = (DIM::nat)"
  using list_emb_set by (metis (full_types))

text \<open>
  \<open>selected DIM xs out\<close>: the points of \<open>out\<close> are points of \<open>xs\<close>, coordinate for coordinate
  and in the same relative order (\<open>out\<close> is \<open>xs\<close> with some of its points left out).
\<close>

definition selected :: "nat \<Rightarrow> real list \<Rightarrow> real list \<Rightarrow> bool" where
  "selected DIM xs out = subseq (points DIM out) (points DIM xs)"

lemma selectedI:
  assumes "0 < DIM" "length xs = n * DIM" "out = concat ks" "subseq ks (points DIM xs)"
  shows "selected DIM xs out"
proof -
  have "\<forall>p \<in> set ks. length p = DIM"
    using subseq_set_length [OF assms(4) points_all_length [OF assms(1,2)]] .
  then show ?thesis using assms by (simp add: selected_def points_concat)
qed

lemma CopyKey_point:
  assumes "0 < DIM" "length xs = n * DIM" "i < n"
  shows "CopyKey DIM xs (i * DIM) acc = acc @ points DIM xs ! i"
  using assms by (simp add: CopyKey_def points_nth points_length)

lemma selected_refl: "selected DIM xs xs"
  by (simp add: selected_def)

lemma selected_Cons:
  assumes "0 < DIM" "length xs = n * DIM" "0 < n" "out = points DIM xs ! 0 @ concat ks"
    "subseq ks (drop (Suc 0) (points DIM xs))"
  shows "selected DIM xs out"
proof -
  have "subseq (points DIM xs ! 0 # ks) (drop 0 (points DIM xs))"
    using assms by (intro subseq_nth_drop) (simp_all add: points_length)
  then show ?thesis using assms(4) selectedI [OF assms(1,2), of out "points DIM xs ! 0 # ks"] by simp
qed

lemma subseq_drop_Suc:
  "subseq ks (drop (Suc j) ps) \<Longrightarrow> subseq ks (drop j ps)"
proof -
  assume a: "subseq ks (drop (Suc j) ps)"
  have "drop (Suc j) ps = drop 1 (drop j ps)" by simp
  then have "suffix (drop (Suc j) ps) (drop j ps)" by (metis suffix_drop)
  then have "subseq (drop (Suc j) ps) (drop j ps)" by (rule suffix_imp_subseq)
  with a show ?thesis by (rule subseq_order.trans)
qed

text \<open>
  \<open>keys_from DIM xs j ks\<close>: \<open>ks\<close> is a selection, in order, of the points of \<open>xs\<close> from the
  \<open>j\<close>-th on, and it ends with the last point of \<open>xs\<close>.
\<close>

definition keys_from :: "nat \<Rightarrow> real list \<Rightarrow> nat \<Rightarrow> real list list \<Rightarrow> bool" where
  "keys_from DIM xs j ks =
     (subseq ks (drop j (points DIM xs)) \<and> ks \<noteq> [] \<and> last ks = last (points DIM xs))"

lemma keys_from_last:
  assumes "length (points DIM xs) = N" "j < N" "Suc i = N" "j \<le> i"
  shows "keys_from DIM xs j [points DIM xs ! i]"
proof -
  have "subseq [points DIM xs ! i] (drop j (points DIM xs))"
    using assms by (intro subseq_nth_drop) simp_all
  moreover have "last (points DIM xs) = points DIM xs ! i"
    using assms by (cases "points DIM xs") (auto simp: last_conv_nth)
  ultimately show ?thesis by (simp add: keys_from_def)
qed

lemma keys_from_Cons:
  assumes "length (points DIM xs) = N" "j \<le> i" "i < N" "keys_from DIM xs (Suc i) ks"
  shows "keys_from DIM xs j (points DIM xs ! i # ks)"
proof -
  have "subseq (points DIM xs ! i # ks) (drop j (points DIM xs))"
    using assms by (intro subseq_nth_drop) (simp_all add: keys_from_def)
  then show ?thesis using assms(4) by (simp add: keys_from_def)
qed

lemma keys_from_Suc: "keys_from DIM xs (Suc j) ks \<Longrightarrow> keys_from DIM xs j ks"
  by (simp add: keys_from_def subseq_drop_Suc)

lemma keys_from_subseq: "keys_from DIM xs j ks \<Longrightarrow> subseq ks (drop j (points DIM xs))"
  by (simp add: keys_from_def)

text \<open>
  \<open>keeps_ends DIM xs out\<close>: \<open>out\<close> is the first point of \<open>xs\<close> followed by a selection of
  the later points that ends with the last point.
\<close>

definition keeps_ends :: "nat \<Rightarrow> real list \<Rightarrow> real list \<Rightarrow> bool" where
  "keeps_ends DIM xs out =
     (\<exists>ks. out = points DIM xs ! 0 @ concat ks \<and> keys_from DIM xs 1 ks)"

lemma keeps_ends_selected:
  assumes "0 < DIM" "length xs = n * DIM" "0 < n" "keeps_ends DIM xs out"
  shows "selected DIM xs out"
proof -
  from assms(4) obtain ks where ks: "out = points DIM xs ! 0 @ concat ks" and kf: "keys_from DIM xs 1 ks"
    unfolding keeps_ends_def by blast
  have "subseq ks (drop (Suc 0) (points DIM xs))" using keys_from_subseq [OF kf] by simp
  with assms(1-3) ks show ?thesis by (rule selected_Cons)
qed

lemma NthPoint_loop_selected:
  assumes "0 < DIM" "length xs = N * DIM" "1 \<le> n"
  shows "a + k * n + r = N - 1 \<Longrightarrow> 1 \<le> N \<Longrightarrow>
    \<exists>ks. (case NthPoint_loop DIM xs n k (a * DIM) acc of
             (key, out) \<Rightarrow> if r \<noteq> 0 then CopyKey DIM xs (key + DIM * r) out else out) = acc @ concat ks \<and>
          (ks = [] \<and> Suc a = N \<or> keys_from DIM xs (Suc a) ks)"
proof (induction k arbitrary: a acc)
  case 0
  have len: "length (points DIM xs) = N" using assms by (simp add: points_length)
  show ?case
  proof (cases "r = 0")
    case True
    then have "Suc a = N" using 0 by simp
    then show ?thesis using True by (intro exI [of _ "[]"]) simp
  next
    case False
    with 0 have lt: "a + r < N" by simp
    have "CopyKey DIM xs (a * DIM + DIM * r) acc = acc @ points DIM xs ! (a + r)"
      using CopyKey_point [OF assms(1,2) lt, of acc] by (simp add: algebra_simps)
    moreover have "keys_from DIM xs (Suc a) [points DIM xs ! (a + r)]"
      using False 0 len by (intro keys_from_last [of DIM xs N]) simp_all
    ultimately show ?thesis using False by (intro exI [of _ "[points DIM xs ! (a + r)]"]) simp
  qed
next
  case (Suc k)
  have len: "length (points DIM xs) = N" using assms by (simp add: points_length)
  from Suc.prems have lt: "a + n < N" using assms(3) by simp
  have eq: "a + n + k * n + r = N - 1" using Suc.prems by simp
  from Suc.IH [OF eq Suc.prems(2), of "acc @ points DIM xs ! (a + n)"]
  obtain ks where ks: "(case NthPoint_loop DIM xs n k ((a + n) * DIM) (acc @ points DIM xs ! (a + n)) of
             (key, out) \<Rightarrow> if r \<noteq> 0 then CopyKey DIM xs (key + DIM * r) out else out) =
             (acc @ points DIM xs ! (a + n)) @ concat ks"
    and sub: "ks = [] \<and> Suc (a + n) = N \<or> keys_from DIM xs (Suc (a + n)) ks" by blast
  have step: "NthPoint_loop DIM xs n (Suc k) (a * DIM) acc =
        NthPoint_loop DIM xs n k ((a + n) * DIM) (acc @ points DIM xs ! (a + n))"
    using CopyKey_point [OF assms(1,2) lt, of acc] by (simp add: algebra_simps)
  from sub have "keys_from DIM xs (Suc a) (points DIM xs ! (a + n) # ks)"
  proof
    assume "ks = [] \<and> Suc (a + n) = N"
    then show ?thesis using lt len assms(3) by (auto intro!: keys_from_last [of DIM xs N])
  next
    assume "keys_from DIM xs (Suc (a + n)) ks"
    then show ?thesis using lt len assms(3) by (intro keys_from_Cons [of DIM xs N]) simp_all
  qed
  then show ?case unfolding step using ks
    by (intro exI [of _ "points DIM xs ! (a + n) # ks"]) simp
qed

lemma NthPoint_keeps_ends:
  assumes "0 < DIM"
    and ok: "\<not> (length xs mod DIM \<noteq> 0 \<or> pointCount_of DIM (length xs) < 2 \<or> n < 2)"
  shows "keeps_ends DIM xs (written (NthPoint DIM xs n))"
proof -
  define N where "N = pointCount_of DIM (length xs)"
  from ok assms(1) have len: "length xs = N * DIM" and N2: "2 \<le> N" and n2: "2 \<le> n"
    by (auto simp: N_def pointCount_of_def)
  define k where "k = (N - 1) div n"
  define r where "r = N - k * n - 1"
  have "k * n \<le> N - 1" unfolding k_def by simp
  then have eq: "0 + k * n + r = N - 1" unfolding r_def by simp
  from NthPoint_loop_selected [OF assms(1) len _ eq, of "CopyKey DIM xs 0 []"] n2 N2
  obtain ks where ks: "(case NthPoint_loop DIM xs n k (0 * DIM) (CopyKey DIM xs 0 []) of
             (key, out) \<Rightarrow> if r \<noteq> 0 then CopyKey DIM xs (key + DIM * r) out else out) =
             CopyKey DIM xs 0 [] @ concat ks"
    and sub: "keys_from DIM xs (Suc 0) ks" by auto
  have c0: "CopyKey DIM xs 0 [] = points DIM xs ! 0"
    using CopyKey_point [OF assms(1) len, of 0 "[]"] N2 by simp
  have "written (NthPoint DIM xs n) =
        (case NthPoint_loop DIM xs n k (0 * DIM) (CopyKey DIM xs 0 []) of
             (key, out) \<Rightarrow> if r \<noteq> 0 then CopyKey DIM xs (key + DIM * r) out else out)"
    using ok unfolding NthPoint_def Let_def k_def r_def N_def finish_def
    by (auto split: prod.splits)
  then have "written (NthPoint DIM xs n) = points DIM xs ! 0 @ concat ks"
    using ks c0 by simp
  then show ?thesis unfolding keeps_ends_def using sub by auto
qed

lemma NthPoint_selected:
  assumes "0 < DIM"
  shows "selected DIM xs (written (NthPoint DIM xs n))"
proof (cases "length xs mod DIM \<noteq> 0 \<or> pointCount_of DIM (length xs) < 2 \<or> n < 2")
  case True
  then show ?thesis by (auto simp: NthPoint_def Let_def copy_input_def selected_refl)
next
  case False
  from False assms have "length xs = pointCount_of DIM (length xs) * DIM" "0 < pointCount_of DIM (length xs)"
    by (auto simp: pointCount_of_def)
  then show ?thesis using keeps_ends_selected [OF assms _ _ NthPoint_keeps_ends [OF assms False]] by blast
qed

text \<open>
  What \<open>RadialDistance\<close> keeps of the points after the first, on sequences of points:
  \<open>cur\<close> is the current key; a point nearer than the tolerance to the key is left out,
  any other point becomes the key; the last point is kept whatever its distance.
\<close>

fun rd_pts :: "real \<Rightarrow> real list \<Rightarrow> real list list \<Rightarrow> real list list" where
  "rd_pts tol2 cur [] = []"
| "rd_pts tol2 cur [p] = [p]"
| "rd_pts tol2 cur (p # q # ps) =
     (if point_distance2 cur p < tol2 then rd_pts tol2 cur (q # ps)
      else p # rd_pts tol2 p (q # ps))"

lemma rd_pts_subseq: "subseq (rd_pts tol2 cur ps) ps"
  by (induction tol2 cur ps rule: rd_pts.induct) auto

lemma RadialDistance_loop_points:
  assumes "0 < DIM" "length xs = N * DIM"
  shows "1 \<le> idx \<Longrightarrow> idx < N \<Longrightarrow>
    (case RadialDistance_loop DIM xs tol2 N idx cur ((idx - 1) * DIM) acc of
       (nx, out) \<Rightarrow> CopyKey DIM xs (nx + DIM) out) =
    acc @ concat (rd_pts tol2 (pt DIM xs cur) (drop idx (points DIM xs)))"
proof (induction "N - idx" arbitrary: idx cur acc)
  case 0
  then show ?case by simp
next
  case (Suc d)
  have len: "length (points DIM xs) = N" using assms by (simp add: points_length)
  have nx: "(idx - 1) * DIM + DIM = idx * DIM" using Suc.prems(1) by (cases idx) simp_all
  have dr: "drop idx (points DIM xs) = points DIM xs ! idx # drop (Suc idx) (points DIM xs)"
    using Suc.prems(2) len by (simp add: Cons_nth_drop_Suc)
  have pi: "points DIM xs ! idx = pt DIM xs (idx * DIM)"
    using Suc.prems(2) len by (simp add: points_nth)
  show ?case
  proof (cases "idx < N - 1")
    case False
    then have last: "Suc idx = N" using Suc.prems by simp
    then have "drop (Suc idx) (points DIM xs) = []" using len by simp
    moreover have "RadialDistance_loop DIM xs tol2 N idx cur ((idx - 1) * DIM) acc = ((idx - 1) * DIM, acc)"
      using False by (subst RadialDistance_loop.simps) simp
    ultimately show ?thesis
      using dr nx CopyKey_point [OF assms Suc.prems(2), of acc] by simp
  next
    case True
    then have lt: "Suc idx < N" by simp
    from lt len obtain q qs where dq: "drop (Suc idx) (points DIM xs) = q # qs"
      by (cases "drop (Suc idx) (points DIM xs)") auto
    have d': "d = N - Suc idx" using Suc.hyps(2) by simp
    have one: "1 \<le> Suc idx" by simp
    show ?thesis
    proof (cases "point_distance2 (pt DIM xs cur) (pt DIM xs (idx * DIM)) < tol2")
      case near: True
      have "RadialDistance_loop DIM xs tol2 N idx cur ((idx - 1) * DIM) acc =
            RadialDistance_loop DIM xs tol2 N (Suc idx) cur ((Suc idx - 1) * DIM) acc"
        using True near nx by (subst RadialDistance_loop.simps) simp
      then show ?thesis
        using Suc.hyps(1) [OF d' one lt, of cur acc] near dr dq pi by simp
    next
      case far: False
      have "RadialDistance_loop DIM xs tol2 N idx cur ((idx - 1) * DIM) acc =
            RadialDistance_loop DIM xs tol2 N (Suc idx) (idx * DIM) ((Suc idx - 1) * DIM)
              (CopyKey DIM xs (idx * DIM) acc)"
        using True far nx by (subst RadialDistance_loop.simps) simp
      then show ?thesis
        using Suc.hyps(1) [OF d' one lt, of "idx * DIM" "CopyKey DIM xs (idx * DIM) acc"] far dr dq pi
          CopyKey_point [OF assms Suc.prems(2), of acc] by simp
    qed
  qed
qed

lemma RadialDistance_points:
  assumes "length xs mod DIM = 0" "2 \<le> pointCount_of DIM (length xs)" "tol \<noteq> 0"
  shows "written (RadialDistance DIM xs tol) =
         concat (hd (points DIM xs) # rd_pts (tol * tol) (hd (points DIM xs)) (tl (points DIM xs)))"
    and "ret (RadialDistance DIM xs tol) = length (written (RadialDistance DIM xs tol))"
proof -
  define N where "N = pointCount_of DIM (length xs)"
  from well_formed_length [OF assms(1,2)] have D: "0 < DIM" and len: "length xs = N * DIM"
    by (simp_all add: N_def)
  have N2: "2 \<le> N" using assms(2) by (simp add: N_def)
  have lenp: "length (points DIM xs) = N" using D len by (simp add: points_length)
  have h: "hd (points DIM xs) = pt DIM xs 0"
    using lenp N2 points_nth [of 0 DIM xs] by (cases "points DIM xs") auto
  have c0: "CopyKey DIM xs 0 [] = hd (points DIM xs)" by (simp add: CopyKey_def h)
  have w: "written (RadialDistance DIM xs tol) =
        (case RadialDistance_loop DIM xs (tol * tol) N 1 0 ((1 - 1) * DIM) (CopyKey DIM xs 0 []) of
           (nx, out) \<Rightarrow> CopyKey DIM xs (nx + DIM) out)"
    using assms unfolding RadialDistance_def Let_def N_def finish_def
    by (auto split: prod.splits)
  show "written (RadialDistance DIM xs tol) =
         concat (hd (points DIM xs) # rd_pts (tol * tol) (hd (points DIM xs)) (tl (points DIM xs)))"
    unfolding w using RadialDistance_loop_points [OF D len, of 1 "tol * tol" 0 "CopyKey DIM xs 0 []"] N2 c0 h
    by (simp add: drop_Suc)
  show "ret (RadialDistance DIM xs tol) = length (written (RadialDistance DIM xs tol))"
    using assms unfolding RadialDistance_def Let_def finish_def
    by (auto split: prod.splits)
qed

lemma RadialDistance_selected:
  assumes "0 < DIM"
  shows "selected DIM xs (written (RadialDistance DIM xs tol))"
proof (cases "length xs mod DIM \<noteq> 0 \<or> pointCount_of DIM (length xs) < 2 \<or> tol * tol = 0")
  case True
  then show ?thesis by (auto simp: RadialDistance_def Let_def copy_input_def selected_refl)
next
  case False
  define N where "N = pointCount_of DIM (length xs)"
  from False have wf: "length xs mod DIM = 0" "2 \<le> pointCount_of DIM (length xs)" "tol \<noteq> 0" by auto
  from well_formed_length [OF wf(1,2)] have len: "length xs = N * DIM" by (simp add: N_def)
  have lenp: "length (points DIM xs) = N" using assms len by (simp add: points_length)
  then obtain p ps where pp: "points DIM xs = p # ps" using wf(2) by (cases "points DIM xs") (auto simp: N_def)
  have "subseq (p # rd_pts (tol * tol) p ps) (p # ps)" by (simp add: rd_pts_subseq)
  then show ?thesis
    using selectedI [OF assms len RadialDistance_points(1) [OF wf]] pp by simp
qed

lemma PerpendicularDistance_loop_selected:
  assumes "0 < DIM" "length xs = N * DIM"
  shows "Suc j \<le> N \<Longrightarrow>
    \<exists>ks. (case PerpendicularDistance_loop fl DIM xs tol2 p0 (j * DIM) (Suc j * DIM) acc of
             (p1, out) \<Rightarrow> if p1 \<noteq> length xs then CopyKey DIM xs p1 out else out) = acc @ concat ks \<and>
          keys_from DIM xs j ks"
proof (induction "N - j" arbitrary: j p0 acc rule: less_induct)
  case less
  have len: "length (points DIM xs) = N" using assms by (simp add: points_length)
  have jN: "j < N" using less.prems by simp
  have ne: "j * DIM \<noteq> length xs" using jN assms by simp
  show ?case
  proof (cases "Suc j * DIM < length xs")
    case False
    then have "PerpendicularDistance_loop fl DIM xs tol2 p0 (j * DIM) (Suc j * DIM) acc = (j * DIM, acc)"
      by (subst PerpendicularDistance_loop.simps) simp
    moreover have "Suc j = N"
    proof -
      from False assms have "\<not> Suc j * DIM < N * DIM" by simp
      then have "\<not> Suc j < N" using assms(1) by (simp only: mult_less_cancel2) simp
      then show ?thesis using less.prems by simp
    qed
    then have "keys_from DIM xs j [points DIM xs ! j]"
      using jN len by (intro keys_from_last [of DIM xs N]) simp_all
    ultimately show ?thesis
      using ne CopyKey_point [OF assms jN, of acc]
      by (intro exI [of _ "[points DIM xs ! j]"]) simp
  next
    case True
    then have "Suc j * DIM < N * DIM" using assms by simp
    then have sj: "Suc j < N" by (simp only: mult_less_cancel2)
    show ?thesis
    proof (cases "segment_distance2 fl (pt DIM xs p0) (pt DIM xs (Suc j * DIM)) (pt DIM xs (j * DIM)) < tol2")
      case near: True
      have two: "j * DIM + 2 * DIM = Suc (Suc j) * DIM" by simp
      have two': "Suc j * DIM + 2 * DIM = Suc (Suc (Suc j)) * DIM" by simp
      show ?thesis
      proof (cases "Suc (Suc j) = N")
        case last: True
        then have "PerpendicularDistance_loop fl DIM xs tol2 p0 (j * DIM) (Suc j * DIM) acc =
                   (length xs, CopyKey DIM xs (Suc j * DIM) acc)"
          using True near assms by (subst PerpendicularDistance_loop.simps) (simp only: two, simp)
        moreover have "keys_from DIM xs j [points DIM xs ! Suc j]"
          using jN last len by (intro keys_from_last [of DIM xs N]) simp_all
        ultimately show ?thesis
          using CopyKey_point [OF assms sj, of acc]
          by (intro exI [of _ "[points DIM xs ! Suc j]"]) simp
      next
        case notlast: False
        then have ssj: "Suc (Suc (Suc j)) \<le> N" using sj by simp
        have "Suc (Suc j) * DIM \<noteq> N * DIM" using notlast assms(1) by (simp only: mult_cancel2) simp
        then have "PerpendicularDistance_loop fl DIM xs tol2 p0 (j * DIM) (Suc j * DIM) acc =
              PerpendicularDistance_loop fl DIM xs tol2 (Suc j * DIM) (Suc (Suc j) * DIM)
                (Suc (Suc (Suc j)) * DIM) (CopyKey DIM xs (Suc j * DIM) acc)"
          using True near assms by (subst PerpendicularDistance_loop.simps) (simp only: two two', simp)
        moreover have m2: "N - Suc (Suc j) < N - j" using jN by simp
        from less.hyps [OF m2 ssj, of "Suc j * DIM" "CopyKey DIM xs (Suc j * DIM) acc"]
        obtain ks where ks: "(case PerpendicularDistance_loop fl DIM xs tol2 (Suc j * DIM) (Suc (Suc j) * DIM)
                (Suc (Suc (Suc j)) * DIM) (CopyKey DIM xs (Suc j * DIM) acc) of
             (p1, out) \<Rightarrow> if p1 \<noteq> length xs then CopyKey DIM xs p1 out else out) =
             CopyKey DIM xs (Suc j * DIM) acc @ concat ks"
          and sub: "keys_from DIM xs (Suc (Suc j)) ks" by blast
        moreover have "keys_from DIM xs j (points DIM xs ! Suc j # ks)"
          using sub sj len by (intro keys_from_Cons [of DIM xs N]) simp_all
        ultimately show ?thesis
          using CopyKey_point [OF assms sj, of acc]
          by (intro exI [of _ "points DIM xs ! Suc j # ks"]) simp
      qed
    next
      case far: False
      have "PerpendicularDistance_loop fl DIM xs tol2 p0 (j * DIM) (Suc j * DIM) acc =
            PerpendicularDistance_loop fl DIM xs tol2 (j * DIM) (Suc j * DIM)
                (Suc (Suc j) * DIM) (CopyKey DIM xs (j * DIM) acc)"
        using True far assms by (subst PerpendicularDistance_loop.simps) (simp add: add.commute)
      moreover have m1: "N - Suc j < N - j" using jN by simp
      have sj': "Suc (Suc j) \<le> N" using sj by simp
      from less.hyps [OF m1 sj', of "j * DIM" "CopyKey DIM xs (j * DIM) acc"]
      obtain ks where ks: "(case PerpendicularDistance_loop fl DIM xs tol2 (j * DIM) (Suc j * DIM)
                (Suc (Suc j) * DIM) (CopyKey DIM xs (j * DIM) acc) of
             (p1, out) \<Rightarrow> if p1 \<noteq> length xs then CopyKey DIM xs p1 out else out) =
             CopyKey DIM xs (j * DIM) acc @ concat ks"
        and sub: "keys_from DIM xs (Suc j) ks" by blast
      moreover have "keys_from DIM xs j (points DIM xs ! j # ks)"
        using sub jN len by (intro keys_from_Cons [of DIM xs N]) simp_all
      ultimately show ?thesis
        using CopyKey_point [OF assms jN, of acc]
        by (intro exI [of _ "points DIM xs ! j # ks"]) simp
    qed
  qed
qed

lemma PerpendicularDistance_keeps_ends:
  assumes "0 < DIM"
    and ok: "\<not> (length xs mod DIM \<noteq> 0 \<or> pointCount_of DIM (length xs) < 3 \<or> tol * tol = 0)"
  shows "keeps_ends DIM xs (written (PerpendicularDistance fl DIM xs tol))"
proof -
  define N where "N = pointCount_of DIM (length xs)"
  from ok assms(1) have len: "length xs = N * DIM" and N3: "3 \<le> N"
    by (auto simp: N_def pointCount_of_def)
  have e: "1 * DIM = DIM" "Suc 1 * DIM = 2 * DIM" by simp_all
  have "Suc 1 \<le> N" using N3 by simp
  from PerpendicularDistance_loop_selected [OF assms(1) len this, of fl "tol * tol" 0 "CopyKey DIM xs 0 []"]
  obtain ks where ks0: "(case PerpendicularDistance_loop fl DIM xs (tol * tol) 0 (1 * DIM) (Suc 1 * DIM) (CopyKey DIM xs 0 []) of
             (p1, out) \<Rightarrow> if p1 \<noteq> length xs then CopyKey DIM xs p1 out else out) =
             CopyKey DIM xs 0 [] @ concat ks"
    and kf: "keys_from DIM xs 1 ks" by blast
  note ks = ks0 [unfolded e]
  have c0: "CopyKey DIM xs 0 [] = points DIM xs ! 0"
    using CopyKey_point [OF assms(1) len, of 0 "[]"] N3 by simp
  have "written (PerpendicularDistance fl DIM xs tol) =
        (case PerpendicularDistance_loop fl DIM xs (tol * tol) 0 DIM (2 * DIM) (CopyKey DIM xs 0 []) of
             (p1, out) \<Rightarrow> if p1 \<noteq> length xs then CopyKey DIM xs p1 out else out)"
    using ok unfolding PerpendicularDistance_def Let_def finish_def
    by (auto split: prod.splits)
  then have "written (PerpendicularDistance fl DIM xs tol) = points DIM xs ! 0 @ concat ks"
    using ks c0 by simp
  then show ?thesis unfolding keeps_ends_def using kf by blast
qed

lemma PerpendicularDistance_selected:
  assumes "0 < DIM"
  shows "selected DIM xs (written (PerpendicularDistance fl DIM xs tol))"
proof (cases "length xs mod DIM \<noteq> 0 \<or> pointCount_of DIM (length xs) < 3 \<or> tol * tol = 0")
  case True
  then show ?thesis by (auto simp: PerpendicularDistance_def Let_def copy_input_def selected_refl)
next
  case False
  from False assms have "length xs = pointCount_of DIM (length xs) * DIM" "0 < pointCount_of DIM (length xs)"
    by (auto simp: pointCount_of_def)
  then show ?thesis using keeps_ends_selected [OF assms _ _ PerpendicularDistance_keeps_ends [OF assms False]] by blast
qed

lemma ReumannWitkam_loop_selected:
  assumes "0 < DIM" "length xs = N * DIM"
  shows "Suc j \<le> N \<Longrightarrow>
    \<exists>ks. (case ReumannWitkam_loop fl DIM xs tol2 N (Suc j) p0 p1 (j * DIM) acc of
             (pj, out) \<Rightarrow> CopyKey DIM xs pj out) = acc @ concat ks \<and>
          keys_from DIM xs j ks"
proof (induction "N - j" arbitrary: j p0 p1 acc rule: less_induct)
  case less
  have len: "length (points DIM xs) = N" using assms by (simp add: points_length)
  have jN: "j < N" using less.prems by simp
  show ?case
  proof (cases "Suc j < N")
    case False
    then have "ReumannWitkam_loop fl DIM xs tol2 N (Suc j) p0 p1 (j * DIM) acc = (j * DIM, acc)"
      by (subst ReumannWitkam_loop.simps) simp
    moreover have "keys_from DIM xs j [points DIM xs ! j]"
      using jN len False less.prems by (intro keys_from_last [of DIM xs N]) simp_all
    ultimately show ?thesis
      using CopyKey_point [OF assms jN, of acc]
      by (intro exI [of _ "[points DIM xs ! j]"]) simp
  next
    case True
    have m1: "N - Suc j < N - j" using jN by simp
    have sj': "Suc (Suc j) \<le> N" using True by simp
    have nx: "j * DIM + DIM = Suc j * DIM" by simp
    show ?thesis
    proof (cases "less_opt (line_distance2 fl (pt DIM xs p0) (pt DIM xs p1) (pt DIM xs (Suc j * DIM))) tol2")
      case near: True
      have "ReumannWitkam_loop fl DIM xs tol2 N (Suc j) p0 p1 (j * DIM) acc =
            ReumannWitkam_loop fl DIM xs tol2 N (Suc (Suc j)) p0 p1 (Suc j * DIM) acc"
        using True near by (subst ReumannWitkam_loop.simps) (simp only: nx, simp)
      moreover from less.hyps [OF m1 sj', of p0 p1 acc]
      obtain ks where ks: "(case ReumannWitkam_loop fl DIM xs tol2 N (Suc (Suc j)) p0 p1 (Suc j * DIM) acc of
             (pj, out) \<Rightarrow> CopyKey DIM xs pj out) = acc @ concat ks"
        and sub: "keys_from DIM xs (Suc j) ks" by blast
      moreover have "keys_from DIM xs j ks" using sub by (rule keys_from_Suc)
      ultimately show ?thesis by (intro exI [of _ ks]) simp
    next
      case far: False
      have "ReumannWitkam_loop fl DIM xs tol2 N (Suc j) p0 p1 (j * DIM) acc =
            ReumannWitkam_loop fl DIM xs tol2 N (Suc (Suc j)) (j * DIM) (Suc j * DIM) (Suc j * DIM)
              (CopyKey DIM xs (j * DIM) acc)"
        using True far by (subst ReumannWitkam_loop.simps) (simp only: nx, simp)
      moreover from less.hyps [OF m1 sj', of "j * DIM" "Suc j * DIM" "CopyKey DIM xs (j * DIM) acc"]
      obtain ks where ks: "(case ReumannWitkam_loop fl DIM xs tol2 N (Suc (Suc j)) (j * DIM) (Suc j * DIM)
              (Suc j * DIM) (CopyKey DIM xs (j * DIM) acc) of
             (pj, out) \<Rightarrow> CopyKey DIM xs pj out) = CopyKey DIM xs (j * DIM) acc @ concat ks"
        and sub: "keys_from DIM xs (Suc j) ks" by blast
      moreover have "keys_from DIM xs j (points DIM xs ! j # ks)"
        using sub jN len by (intro keys_from_Cons [of DIM xs N]) simp_all
      ultimately show ?thesis
        using CopyKey_point [OF assms jN, of acc]
        by (intro exI [of _ "points DIM xs ! j # ks"]) simp
    qed
  qed
qed

lemma ReumannWitkam_keeps_ends:
  assumes "0 < DIM"
    and ok: "\<not> (length xs mod DIM \<noteq> 0 \<or> pointCount_of DIM (length xs) < 3 \<or> tol * tol = 0)"
  shows "keeps_ends DIM xs (written (ReumannWitkam fl DIM xs tol))"
proof -
  define N where "N = pointCount_of DIM (length xs)"
  from ok assms(1) have len: "length xs = N * DIM" and N3: "3 \<le> N"
    by (auto simp: N_def pointCount_of_def)
  have e: "1 * DIM = DIM" "Suc 1 = 2" by simp_all
  have "Suc 1 \<le> N" using N3 by simp
  from ReumannWitkam_loop_selected [OF assms(1) len this, of fl "tol * tol" 0 DIM "CopyKey DIM xs 0 []"]
  obtain ks where ks0: "(case ReumannWitkam_loop fl DIM xs (tol * tol) N (Suc 1) 0 DIM (1 * DIM) (CopyKey DIM xs 0 []) of
             (pj, out) \<Rightarrow> CopyKey DIM xs pj out) = CopyKey DIM xs 0 [] @ concat ks"
    and kf: "keys_from DIM xs 1 ks" by blast
  note ks = ks0 [unfolded e]
  have c0: "CopyKey DIM xs 0 [] = points DIM xs ! 0"
    using CopyKey_point [OF assms(1) len, of 0 "[]"] N3 by simp
  have "written (ReumannWitkam fl DIM xs tol) =
        (case ReumannWitkam_loop fl DIM xs (tol * tol) N 2 0 DIM DIM (CopyKey DIM xs 0 []) of
             (pj, out) \<Rightarrow> CopyKey DIM xs pj out)"
    using ok unfolding ReumannWitkam_def Let_def finish_def N_def
    by (auto split: prod.splits)
  then have "written (ReumannWitkam fl DIM xs tol) = points DIM xs ! 0 @ concat ks"
    using ks c0 by simp
  then show ?thesis unfolding keeps_ends_def using kf by blast
qed

lemma ReumannWitkam_selected:
  assumes "0 < DIM"
  shows "selected DIM xs (written (ReumannWitkam fl DIM xs tol))"
proof (cases "length xs mod DIM \<noteq> 0 \<or> pointCount_of DIM (length xs) < 3 \<or> tol * tol = 0")
  case True
  then show ?thesis by (auto simp: ReumannWitkam_def Let_def copy_input_def selected_refl)
next
  case False
  from False assms have "length xs = pointCount_of DIM (length xs) * DIM" "0 < pointCount_of DIM (length xs)"
    by (auto simp: pointCount_of_def)
  then show ?thesis using keeps_ends_selected [OF assms _ _ ReumannWitkam_keeps_ends [OF assms False]] by blast
qed

lemma Opheim_body_effect:
  "p_j (Opheim_body fl DIM xs minTol2 maxTol2 s) = p_j s + DIM \<and>
   (result (Opheim_body fl DIM xs minTol2 maxTol2 s) = result s \<or>
    result (Opheim_body fl DIM xs minTol2 maxTol2 s) = CopyKey DIM xs (p_j s) (result s))"
  by (simp add: Opheim_body_def Let_def)

lemma Opheim_loop_selected:
  assumes "0 < DIM" "length xs = N * DIM"
  shows "Suc j \<le> N \<Longrightarrow> p_j s = j * DIM \<Longrightarrow>
    \<exists>ks. CopyKey DIM xs (p_j (Opheim_loop fl DIM xs minTol2 maxTol2 N (Suc j) s))
            (result (Opheim_loop fl DIM xs minTol2 maxTol2 N (Suc j) s)) = result s @ concat ks \<and>
          keys_from DIM xs j ks"
proof (induction "N - j" arbitrary: j s rule: less_induct)
  case less
  have len: "length (points DIM xs) = N" using assms by (simp add: points_length)
  have jN: "j < N" using less.prems by simp
  show ?case
  proof (cases "Suc j < N")
    case False
    then have "Opheim_loop fl DIM xs minTol2 maxTol2 N (Suc j) s = s"
      by (subst Opheim_loop.simps) simp
    moreover have "keys_from DIM xs j [points DIM xs ! j]"
      using jN len False less.prems by (intro keys_from_last [of DIM xs N]) simp_all
    ultimately show ?thesis
      using CopyKey_point [OF assms jN, of "result s"] less.prems(2)
      by (intro exI [of _ "[points DIM xs ! j]"]) simp
  next
    case True
    let ?s' = "Opheim_body fl DIM xs minTol2 maxTol2 s"
    have m1: "N - Suc j < N - j" using jN by simp
    have sj': "Suc (Suc j) \<le> N" using True by simp
    have pj': "p_j ?s' = Suc j * DIM" using Opheim_body_effect [of fl DIM xs minTol2 maxTol2 s] less.prems(2) by simp
    have step: "Opheim_loop fl DIM xs minTol2 maxTol2 N (Suc j) s =
          Opheim_loop fl DIM xs minTol2 maxTol2 N (Suc (Suc j)) ?s'"
      using True by (subst Opheim_loop.simps) simp
    from less.hyps [OF m1 sj' pj']
    obtain ks where ks: "CopyKey DIM xs (p_j (Opheim_loop fl DIM xs minTol2 maxTol2 N (Suc (Suc j)) ?s'))
            (result (Opheim_loop fl DIM xs minTol2 maxTol2 N (Suc (Suc j)) ?s')) = result ?s' @ concat ks"
      and sub: "keys_from DIM xs (Suc j) ks" by blast
    from Opheim_body_effect [of fl DIM xs minTol2 maxTol2 s]
    have "result ?s' = result s \<or> result ?s' = CopyKey DIM xs (p_j s) (result s)" by simp
    then show ?thesis
    proof
      assume same: "result ?s' = result s"
      have "keys_from DIM xs j ks" using sub by (rule keys_from_Suc)
      then show ?thesis unfolding step using ks same by (intro exI [of _ ks]) simp
    next
      assume key: "result ?s' = CopyKey DIM xs (p_j s) (result s)"
      have "keys_from DIM xs j (points DIM xs ! j # ks)"
        using sub jN len by (intro keys_from_Cons [of DIM xs N]) simp_all
      then show ?thesis unfolding step using ks key less.prems(2)
          CopyKey_point [OF assms jN, of "result s"]
        by (intro exI [of _ "points DIM xs ! j # ks"]) simp
    qed
  qed
qed

lemma Opheim_keeps_ends:
  assumes "0 < DIM"
    and ok: "\<not> (length xs mod DIM \<noteq> 0 \<or> pointCount_of DIM (length xs) < 2 \<or>
              minTol * minTol = 0 \<or> maxTol * maxTol = 0)"
  shows "keeps_ends DIM xs (written (Opheim fl DIM xs minTol maxTol))"
proof -
  define N where "N = pointCount_of DIM (length xs)"
  from ok assms(1) have len: "length xs = N * DIM" and N2: "2 \<le> N"
    by (auto simp: N_def pointCount_of_def)
  have e: "Suc 1 = 2" by simp
  have "Suc 1 \<le> N" using N2 by simp
  moreover have "p_j (Opheim_init DIM xs) = 1 * DIM" by (simp add: Opheim_init_def)
  ultimately obtain ks where ks0: "CopyKey DIM xs
        (p_j (Opheim_loop fl DIM xs (minTol * minTol) (maxTol * maxTol) N (Suc 1) (Opheim_init DIM xs)))
        (result (Opheim_loop fl DIM xs (minTol * minTol) (maxTol * maxTol) N (Suc 1) (Opheim_init DIM xs))) =
        result (Opheim_init DIM xs) @ concat ks"
    and kf: "keys_from DIM xs 1 ks"
    using Opheim_loop_selected [OF assms(1) len, of 1 "Opheim_init DIM xs" fl "minTol * minTol" "maxTol * maxTol"]
    by blast
  note ks = ks0 [unfolded e]
  have c0: "result (Opheim_init DIM xs) = points DIM xs ! 0"
    using CopyKey_point [OF assms(1) len, of 0 "[]"] N2 by (simp add: Opheim_init_def)
  have "written (Opheim fl DIM xs minTol maxTol) =
        CopyKey DIM xs
        (p_j (Opheim_loop fl DIM xs (minTol * minTol) (maxTol * maxTol) N 2 (Opheim_init DIM xs)))
        (result (Opheim_loop fl DIM xs (minTol * minTol) (maxTol * maxTol) N 2 (Opheim_init DIM xs)))"
    using ok unfolding Opheim_def Let_def finish_def N_def by auto
  then have "written (Opheim fl DIM xs minTol maxTol) = points DIM xs ! 0 @ concat ks"
    using ks c0 by simp
  then show ?thesis unfolding keeps_ends_def using kf by blast
qed

lemma Opheim_selected:
  assumes "0 < DIM"
  shows "selected DIM xs (written (Opheim fl DIM xs minTol maxTol))"
proof (cases "length xs mod DIM \<noteq> 0 \<or> pointCount_of DIM (length xs) < 2 \<or>
              minTol * minTol = 0 \<or> maxTol * maxTol = 0")
  case True
  then show ?thesis by (auto simp: Opheim_def Let_def copy_input_def selected_refl)
next
  case False
  from False assms have "length xs = pointCount_of DIM (length xs) * DIM" "0 < pointCount_of DIM (length xs)"
    by (auto simp: pointCount_of_def)
  then show ?thesis using keeps_ends_selected [OF assms _ _ Opheim_keeps_ends [OF assms False]] by blast
qed

lemma selected_trans: "selected DIM xs ys \<Longrightarrow> selected DIM ys zs \<Longrightarrow> selected DIM xs zs"
  unfolding selected_def by (rule subseq_order.trans)

lemma points_Nil: "points DIM [] = []"
  by (cases DIM) (simp_all add: points_def)

lemma selected_Nil: "selected DIM xs []"
  by (simp add: selected_def points_Nil)

lemma concat_map_if:
  "concat (map (\<lambda>p. if Q p then f p else []) ps) = concat (map f (filter Q ps))"
  by (induction ps) auto

lemma copy_keys_selected:
  assumes "0 < DIM" "length cs = N * DIM"
  shows "selected DIM cs (copy_keys DIM cs keys N)"
proof -
  have len: "length (points DIM cs) = N" using assms by (simp add: points_length)
  have "map (\<lambda>p. pt DIM cs (p * DIM)) (filter (\<lambda>p. keys ! p) [0..<N]) =
        map (\<lambda>p. points DIM cs ! p) (filter (\<lambda>p. keys ! p) [0..<N])"
    using len by (intro map_cong) (simp_all add: points_nth)
  then have ck: "copy_keys DIM cs keys N =
        concat (map (\<lambda>p. points DIM cs ! p) (filter (\<lambda>p. keys ! p) [0..<N]))"
    unfolding copy_keys_def concat_map_if by (rule arg_cong)
  have "subseq (filter (\<lambda>p. keys ! p) [0..<N]) [0..<N]" by simp
  then have "subseq (map (\<lambda>p. points DIM cs ! p) (filter (\<lambda>p. keys ! p) [0..<N]))
                    (map (\<lambda>p. points DIM cs ! p) [0..<N])"
    by (rule subseq_map)
  moreover have "map (\<lambda>p. points DIM cs ! p) [0..<N] = points DIM cs"
    using len map_nth [of "points DIM cs"] by simp
  ultimately show ?thesis using selectedI [OF assms ck] by simp
qed

lemma DouglasPeuckerAlt_selected:
  assumes "0 < DIM"
  shows "selected DIM xs (written (DouglasPeuckerAlt fl fifo DIM xs count))"
proof (cases "length xs mod DIM \<noteq> 0 \<or> pointCount_of DIM (length xs) \<le> count \<or> count < 2")
  case True
  then show ?thesis by (auto simp: DouglasPeuckerAlt_def Let_def copy_input_def selected_refl)
next
  case False
  define N where "N = pointCount_of DIM (length xs)"
  from False assms have len: "length xs = N * DIM"
    by (auto simp: N_def pointCount_of_def)
  show ?thesis using False copy_keys_selected [OF assms len]
    by (simp add: DouglasPeuckerAlt_def Let_def finish_def N_def)
qed

lemma DouglasPeucker_selected:
  assumes "0 < DIM"
  shows "selected DIM xs (written (DouglasPeucker fl DIM xs tol))"
proof (cases "length xs mod DIM \<noteq> 0 \<or> pointCount_of DIM (length xs) < 2 \<or> tol = 0")
  case True
  then show ?thesis by (auto simp: DouglasPeucker_def Let_def copy_input_def selected_refl)
next
  case False
  then have wf: "length xs mod DIM = 0" "2 \<le> pointCount_of DIM (length xs)" "tol \<noteq> 0" by auto
  define N where "N = pointCount_of DIM (length xs)"
  from well_formed_length [OF wf(1,2)] have len: "length xs = N * DIM" by (simp add: N_def)
  define ks where "ks = hd (points DIM xs) # rd_pts (tol * tol) (hd (points DIM xs)) (tl (points DIM xs))"
  define reduced where "reduced = written (RadialDistance DIM xs tol)"
  have red: "reduced = concat ks" and rt: "ret (RadialDistance DIM xs tol) = length reduced"
    using RadialDistance_points [OF wf] by (simp_all add: reduced_def ks_def)
  have lenp: "length (points DIM xs) = N" using assms len by (simp add: points_length)
  then obtain p ps where pp: "points DIM xs = p # ps" using wf(2) by (cases "points DIM xs") (auto simp: N_def)
  have "subseq ks (points DIM xs)" by (simp add: ks_def pp rd_pts_subseq)
  then have "\<forall>p \<in> set ks. length p = DIM"
    using subseq_set_length points_all_length [OF assms len] by blast
  then have lr: "length reduced = length ks * DIM" by (simp add: red length_concat_points)
  then have dv: "length reduced div DIM = length ks" using assms by simp
  have "selected DIM reduced (copy_keys DIM reduced
          (Approximate fl DIM reduced (length reduced) tol) (length ks))"
    using copy_keys_selected [OF assms lr] .
  moreover have "selected DIM xs reduced"
    using RadialDistance_selected [OF assms] by (simp add: reduced_def)
  ultimately have "selected DIM xs (copy_keys DIM reduced
          (Approximate fl DIM reduced (length reduced) tol) (length ks))"
    by (rule selected_trans [rotated])
  then show ?thesis using False rt dv
    by (simp add: DouglasPeucker_def Let_def finish_def reduced_def)
qed

lemma PerpendicularDistance_ret:
  "ret (PerpendicularDistance fl DIM xs tol) = 0 \<or>
   ret (PerpendicularDistance fl DIM xs tol) = length (written (PerpendicularDistance fl DIM xs tol))"
  by (auto simp: PerpendicularDistance_def Let_def copy_input_def finish_def split: prod.splits)

lemma PerpendicularDistance_prefix_selected:
  assumes "0 < DIM"
  shows "selected DIM xs (take (ret (PerpendicularDistance fl DIM xs tol))
           (written (PerpendicularDistance fl DIM xs tol)))"
  using PerpendicularDistance_ret [of fl DIM xs tol] PerpendicularDistance_selected [OF assms, of xs fl tol]
  by (auto simp: selected_Nil)

lemma PD_passes_selected:
  "0 < DIM \<Longrightarrow> selected DIM xs (take coordCount tempPoly) \<Longrightarrow>
    (case PD_passes fl DIM tol repeat tempPoly coordCount of
       Inl out \<Rightarrow> selected DIM xs (written out)
     | Inr (tempPoly', coordCount') \<Rightarrow> selected DIM xs (take coordCount' tempPoly'))"
proof (induction fl DIM tol repeat tempPoly coordCount rule: PD_passes.induct)
  case (1 fl DIM tol repeat tempPoly coordCount)
  let ?r = "PerpendicularDistance fl DIM (take coordCount tempPoly) tol"
  show ?case
  proof (cases "repeat - 1 = 0")
    case True
    then show ?thesis using "1.prems"(2) by (subst PD_passes.simps) simp
  next
    case False
    show ?thesis
    proof (cases "coordCount = ret ?r")
      case True
      then show ?thesis using False "1.prems"(2)
        by (subst PD_passes.simps) (simp add: Let_def copy_input_def)
    next
      case ne: False
      have "selected DIM (take coordCount tempPoly) (take (ret ?r) (written ?r))"
        using PerpendicularDistance_prefix_selected [OF "1.prems"(1)] .
      with "1.prems"(2) have "selected DIM xs (take (ret ?r) (written ?r))" by (rule selected_trans)
      from "1.IH" [OF False refl refl ne "1.prems"(1) this]
      show ?thesis using False ne by (subst PD_passes.simps) (simp add: Let_def)
    qed
  qed
qed

lemma PerpendicularDistance_repeat_selected:
  assumes "0 < DIM"
  shows "selected DIM xs (written (PerpendicularDistance_repeat fl DIM xs tol repeat))"
proof -
  let ?r = "PerpendicularDistance fl DIM xs tol"
  have pre: "selected DIM xs (take (ret ?r) (written ?r))"
    using PerpendicularDistance_prefix_selected [OF assms] .
  consider "repeat = 1" | "repeat < 1" | "1 < repeat" "length xs = ret ?r"
    | "1 < repeat" "length xs \<noteq> ret ?r" "1 < repeat - 1"
    | "1 < repeat" "length xs \<noteq> ret ?r" "\<not> 1 < repeat - 1"
    by linarith
  then show ?thesis
  proof cases
    case 1
    then show ?thesis using PerpendicularDistance_selected [OF assms]
      by (simp add: PerpendicularDistance_repeat_def)
  next
    case 2
    then show ?thesis by (simp add: PerpendicularDistance_repeat_def copy_input_def selected_refl)
  next
    case 3
    then show ?thesis using pre
      by (simp add: PerpendicularDistance_repeat_def Let_def copy_input_def)
  next
    case 4
    from PD_passes_selected [OF assms pre, of fl tol "repeat - 1"]
    have "case PD_passes fl DIM tol (repeat - 1) (written ?r) (ret ?r) of
            Inl out \<Rightarrow> selected DIM xs (written out)
          | Inr (tempPoly', coordCount') \<Rightarrow> selected DIM xs (take coordCount' tempPoly')" .
    then have "case PD_passes fl DIM tol (repeat - 1) (written ?r) (ret ?r) of
            Inl out \<Rightarrow> selected DIM xs (written out)
          | Inr (tempPoly', coordCount') \<Rightarrow>
              selected DIM xs (written (PerpendicularDistance fl DIM (take coordCount' tempPoly') tol))"
      using PerpendicularDistance_selected [OF assms]
      by (auto split: sum.splits intro: selected_trans)
    then show ?thesis using 4
      by (auto simp: PerpendicularDistance_repeat_def Let_def split: sum.splits)
  next
    case 5
    have "selected DIM xs (written (PerpendicularDistance fl DIM (take (ret ?r) (written ?r)) tol))"
      using pre PerpendicularDistance_selected [OF assms] by (rule selected_trans)
    then show ?thesis using 5
      by (simp add: PerpendicularDistance_repeat_def Let_def)
  qed
qed

text \<open>
  C3 (subsequence property): for every routine and every input, the points of the output
  are points of the input, coordinate for coordinate and in the same relative order:
  the sequence of output points is the sequence of input points with some points left
  out, so no new coordinate value is written. \<open>0 < DIM\<close> is the type requirement that
  the dimension is not zero.
\<close>

theorem C3_output_points_are_input_points_in_order:
  assumes "0 < DIM"
  shows "subseq (points DIM (written (NthPoint DIM xs n))) (points DIM xs) \<and>
         subseq (points DIM (written (RadialDistance DIM xs tol))) (points DIM xs) \<and>
         subseq (points DIM (written (PerpendicularDistance fl DIM xs tol))) (points DIM xs) \<and>
         subseq (points DIM (written (PerpendicularDistance_repeat fl DIM xs tol repeat))) (points DIM xs) \<and>
         subseq (points DIM (written (ReumannWitkam fl DIM xs tol))) (points DIM xs) \<and>
         subseq (points DIM (written (Opheim fl DIM xs minTol maxTol))) (points DIM xs) \<and>
         subseq (points DIM (written (DouglasPeucker fl DIM xs tol))) (points DIM xs) \<and>
         subseq (points DIM (written (DouglasPeuckerAlt fl fifo DIM xs count))) (points DIM xs)"
  using NthPoint_selected [OF assms, of xs n] RadialDistance_selected [OF assms, of xs tol]
    PerpendicularDistance_selected [OF assms, of xs fl tol]
    PerpendicularDistance_repeat_selected [OF assms, of xs fl tol repeat]
    ReumannWitkam_selected [OF assms, of xs fl tol] Opheim_selected [OF assms, of xs fl minTol maxTol]
    DouglasPeucker_selected [OF assms, of xs fl tol] DouglasPeuckerAlt_selected [OF assms, of xs fl fifo count]
  unfolding selected_def by (intro conjI)

theorem C3_output_points_are_input_points_in_order_witness:
  "(0::nat) < 2 \<and>
   subseq (points 2 (written (NthPoint 2 [0, 0, 1, 0, 2, 0, 3, 5, 4, 5] 2))) (points 2 [0, 0, 1, 0, 2, 0, 3, 5, 4, 5]) \<and>
   subseq (points 2 (written (DouglasPeucker signed_integer 2 [0, 0, 1, 0, 2, 0, 3, 5, 4, 5] 1))) (points 2 [0, 0, 1, 0, 2, 0, 3, 5, 4, 5])"
proof -
  have h: "(0::nat) < 2" by simp
  from C3_output_points_are_input_points_in_order [OF h, of "[0, 0, 1, 0, 2, 0, 3, 5, 4, 5]" 2 1] h
  show ?thesis by blast
qed

section \<open>Positional errors of a radial distance simplification\<close>

text \<open>
  An arithmetic without rounding: the fraction is the exact quotient and the
  interpolated coordinate the exact value of \<open>a + fraction * d\<close>. No \<open>value_type\<close> computes
  with it; it is the reading of the distance functions as geometry, under which
  \<open>segment_distance2\<close> is the squared distance to the segment.
\<close>

definition exact_arithmetic :: float_arith where
  "exact_arithmetic =
     \<lparr>cast_div = (\<lambda>cw cv. cw / cv), cast_lerp = (\<lambda>a fraction d. a + fraction * d)\<rparr>"

lemma point_distance2_commute: "point_distance2 p q = point_distance2 q p"
proof -
  have "map2 (\<lambda>a b. (a - b) * (a - b)) p q = map2 (\<lambda>a b. (a - b) * (a - b)) q (p :: real list)"
  proof (induction p arbitrary: q)
    case Nil
    then show ?case by simp
  next
    case (Cons a p)
    then show ?case by (cases q) (simp_all add: algebra_simps)
  qed
  then show ?thesis by (simp add: point_distance2_def)
qed

lemma point_distance2_self: "point_distance2 p p = 0"
  by (induction p) (simp_all add: point_distance2_def)

lemma point_distance2_interpolate:
  assumes "length s1 = length s2" "length s2 = length p"
  shows "point_distance2 p (interpolate exact_arithmetic s1 s2 f) =
         point_distance2 p s1 - 2 * f * dot (make_vector s1 p) (make_vector s1 s2) +
         f * f * dot (make_vector s1 s2) (make_vector s1 s2)"
  using assms
proof (induction s1 s2 p rule: list_induct3)
  case Nil
  show ?case by (simp add: point_distance2_def interpolate_def dot_def make_vector_def)
next
  case (Cons a s1 b s2 c p)
  have e1: "point_distance2 (c # p) (interpolate exact_arithmetic (a # s1) (b # s2) f) =
        (c - (a + f * (b - a))) * (c - (a + f * (b - a))) + point_distance2 p (interpolate exact_arithmetic s1 s2 f)"
    by (simp add: point_distance2_def interpolate_def exact_arithmetic_def)
  have e2: "point_distance2 (c # p) (a # s1) = (c - a) * (c - a) + point_distance2 p s1"
    by (simp add: point_distance2_def)
  have e3: "dot (make_vector (a # s1) (c # p)) (make_vector (a # s1) (b # s2)) =
        (c - a) * (b - a) + dot (make_vector s1 p) (make_vector s1 s2)"
    by (simp add: dot_def make_vector_def)
  have e4: "dot (make_vector (a # s1) (b # s2)) (make_vector (a # s1) (b # s2)) =
        (b - a) * (b - a) + dot (make_vector s1 s2) (make_vector s1 s2)"
    by (simp add: dot_def make_vector_def)
  show ?case unfolding e1 e2 e3 e4 Cons.IH by (simp add: algebra_simps)
qed

lemma interpolate_one: "length s1 = length s2 \<Longrightarrow> interpolate exact_arithmetic s1 s2 1 = s2"
  by (induction s1 s2 rule: list_induct2) (simp_all add: interpolate_def exact_arithmetic_def)

lemma segment_distance2_le_start:
  assumes "length s1 = length s2" "length s2 = length p"
  shows "segment_distance2 exact_arithmetic s1 s2 p \<le> point_distance2 p s1"
proof -
  define cw where "cw = dot (make_vector s1 p) (make_vector s1 s2)"
  define cv where "cv = dot (make_vector s1 s2) (make_vector s1 s2)"
  show ?thesis
  proof (cases "cw \<le> 0")
    case True
    then show ?thesis by (simp add: segment_distance2_def Let_def cw_def)
  next
    case pos: False
    show ?thesis
    proof (cases "cv \<le> cw")
      case True
      have "point_distance2 p s2 = point_distance2 p s1 - 2 * cw + cv"
        using point_distance2_interpolate [OF assms, of 1] interpolate_one [OF assms(1)]
        by (simp add: cw_def cv_def)
      then have "point_distance2 p s2 \<le> point_distance2 p s1" using True pos by simp
      then show ?thesis using True pos by (simp add: segment_distance2_def Let_def cw_def cv_def)
    next
      case False
      then have cvpos: "0 < cv" using pos by simp
      have "point_distance2 p (interpolate exact_arithmetic s1 s2 (cw / cv)) =
            point_distance2 p s1 - 2 * (cw / cv) * cw + (cw / cv) * (cw / cv) * cv"
        using point_distance2_interpolate [OF assms, of "cw / cv"] by (simp add: cw_def cv_def)
      also have "\<dots> = point_distance2 p s1 - cw * cw / cv"
        using cvpos by (simp add: field_simps)
      also have "\<dots> \<le> point_distance2 p s1" using cvpos by simp
      finally show ?thesis using False pos
        by (simp add: segment_distance2_def Let_def cw_def cv_def exact_arithmetic_def)
    qed
  qed
qed

text \<open>
  The errors the outer loop of \<open>ComputePositionalErrors2\<close> writes, on sequences of points:
  for the segment from \<open>prev\<close> to the next point \<open>s\<close> of the simplification, every original
  point before the first one equal to \<open>s\<close> is scored against the segment.
\<close>

fun cpe_pts :: "float_arith \<Rightarrow> real list \<Rightarrow> real list list \<Rightarrow> real list list \<Rightarrow> real list" where
  "cpe_pts fl prev [] os = []"
| "cpe_pts fl prev (s # ss) os =
     map (segment_distance2 fl prev s) (takeWhile (\<lambda>p. p \<noteq> s) os) @
     cpe_pts fl s ss (dropWhile (\<lambda>p. p \<noteq> s) os)"

lemma CPE_inner_errors:
  assumes "0 < DIM" "length orig = n * DIM" "length (pt DIM simp sf) = DIM"
  shows "i \<le> n \<Longrightarrow> snd (CPE_inner fl DIM orig simp sp sf (i * DIM) res) =
     res @ map (segment_distance2 fl (pt DIM simp sp) (pt DIM simp sf))
             (takeWhile (\<lambda>p. p \<noteq> pt DIM simp sf) (drop i (points DIM orig)))"
proof (induction "n - i" arbitrary: i res)
  case 0
  then have "i = n" by simp
  then show ?case using assms by (subst CPE_inner.simps) (simp add: points_length)
next
  case (Suc d)
  then have lt: "i < n" by simp
  then have lt': "i * DIM < length orig" using assms by simp
  have len: "length (points DIM orig) = n" using assms by (simp add: points_length)
  have nth: "points DIM orig ! i = pt DIM orig (i * DIM)" using lt len by (simp add: points_nth)
  have dr: "drop i (points DIM orig) = pt DIM orig (i * DIM) # drop (Suc i) (points DIM orig)"
    using lt len nth by (metis Cons_nth_drop_Suc)
  have eq: "equal_points (pt DIM orig (i * DIM)) (pt DIM simp sf) \<longleftrightarrow> pt DIM orig (i * DIM) = pt DIM simp sf"
    using assms lt by (simp add: equal_points_iff pt_length_wf)
  show ?case
  proof (cases "pt DIM orig (i * DIM) = pt DIM simp sf")
    case True
    then show ?thesis using eq dr by (subst CPE_inner.simps) simp
  next
    case False
    let ?e = "segment_distance2 fl (pt DIM simp sp) (pt DIM simp sf) (pt DIM orig (i * DIM))"
    have "snd (CPE_inner fl DIM orig simp sp sf (i * DIM) res) =
          snd (CPE_inner fl DIM orig simp sp sf (Suc i * DIM) (res @ [?e]))"
      using False eq lt' assms(1) by (subst CPE_inner.simps) (simp add: add.commute)
    also have "\<dots> = (res @ [?e]) @ map (segment_distance2 fl (pt DIM simp sp) (pt DIM simp sf))
             (takeWhile (\<lambda>p. p \<noteq> pt DIM simp sf) (drop (Suc i) (points DIM orig)))"
      using Suc lt by (intro Suc.hyps(1)) auto
    finally show ?thesis using False dr by simp
  qed
qed

lemma CPE_outer_errors:
  assumes "0 < DIM" "length orig = n * DIM" "length simp = m * DIM"
  shows "k \<le> m \<Longrightarrow> i \<le> n \<Longrightarrow> snd (CPE_outer fl DIM orig simp sp (k * DIM) (i * DIM) res) =
     res @ cpe_pts fl (pt DIM simp sp) (drop k (points DIM simp)) (drop i (points DIM orig))"
proof (induction "m - k" arbitrary: k i sp res)
  case 0
  then have "k = m" by simp
  then show ?case using assms 0 by (subst CPE_outer.simps) (simp add: points_length)
next
  case (Suc d)
  then have lt: "k < m" by simp
  then have lt': "k * DIM < length simp" using assms by simp
  have len: "length (points DIM simp) = m" using assms by (simp add: points_length)
  have leno: "length (points DIM orig) = n" using assms by (simp add: points_length)
  have dr: "drop k (points DIM simp) = pt DIM simp (k * DIM) # drop (Suc k) (points DIM simp)"
    using lt len by (metis Cons_nth_drop_Suc points_nth)
  have sl: "length (pt DIM simp (k * DIM)) = DIM" using assms lt by (simp add: pt_length_wf)
  let ?t = "length (takeWhile (\<lambda>p. p \<noteq> pt DIM simp (k * DIM)) (drop i (points DIM orig)))"
  let ?res' = "res @ map (segment_distance2 fl (pt DIM simp sp) (pt DIM simp (k * DIM)))
             (takeWhile (\<lambda>p. p \<noteq> pt DIM simp (k * DIM)) (drop i (points DIM orig)))"
  obtain i' res' where inner: "CPE_inner fl DIM orig simp sp (k * DIM) (i * DIM) res = (i', res')"
    by fastforce
  from CPE_inner_position [OF assms(1,2) sl Suc.prems(2), of fl sp res] inner
  have i': "i' = (i + ?t) * DIM" by simp
  from CPE_inner_errors [OF assms(1,2) sl Suc.prems(2), of fl sp res] inner
  have res': "res' = ?res'" by simp
  have le: "i + ?t \<le> n"
    using length_takeWhile_le [of "\<lambda>p. p \<noteq> pt DIM simp (k * DIM)" "drop i (points DIM orig)"] leno Suc.prems(2)
    by simp
  have "snd (CPE_outer fl DIM orig simp sp (k * DIM) (i * DIM) res) =
        snd (CPE_outer fl DIM orig simp (k * DIM) (Suc k * DIM) ((i + ?t) * DIM) ?res')"
    using lt' assms(1) inner i' res' by (subst CPE_outer.simps) (simp add: add.commute)
  also have "\<dots> = ?res' @ cpe_pts fl (pt DIM simp (k * DIM)) (drop (Suc k) (points DIM simp))
                       (drop (i + ?t) (points DIM orig))"
    using Suc lt le by (intro Suc.hyps(1)) auto
  also have "drop (i + ?t) (points DIM orig) = dropWhile (\<lambda>p. p \<noteq> pt DIM simp (k * DIM)) (drop i (points DIM orig))"
    by (simp add: dropWhile_eq_drop add.commute)
  finally show ?case using dr by simp
qed

lemma rd_pts_errors:
  "0 < tol2 \<Longrightarrow> rest \<noteq> [] \<Longrightarrow> \<forall>q \<in> set pre. point_distance2 cur q < tol2 \<Longrightarrow>
         \<forall>q \<in> set (cur # pre @ rest). length q = L \<Longrightarrow>
         (\<forall>e \<in> set (cpe_pts exact_arithmetic cur (rd_pts tol2 cur rest) (pre @ rest)). e \<le> tol2) \<and>
         scan (rd_pts tol2 cur rest) (pre @ rest) \<noteq> []"
proof (induction tol2 cur rest arbitrary: pre rule: rd_pts.induct)
  case (1 tol2 cur)
  then show ?case by simp
next
  case (2 tol2 cur p)
  have sub: "set (takeWhile (\<lambda>q. q \<noteq> p) (pre @ [p])) \<subseteq> set pre"
  proof
    fix q assume a: "q \<in> set (takeWhile (\<lambda>q. q \<noteq> p) (pre @ [p]))"
    then have "q \<noteq> p" by (auto dest: set_takeWhileD)
    moreover from a have "q \<in> set (pre @ [p])" by (auto dest: set_takeWhileD)
    ultimately show "q \<in> set pre" by simp
  qed
  have "segment_distance2 exact_arithmetic cur p q \<le> tol2" if "q \<in> set pre" for q
  proof -
    have "segment_distance2 exact_arithmetic cur p q \<le> point_distance2 q cur"
      using that "2.prems"(4) by (intro segment_distance2_le_start) simp_all
    also have "\<dots> = point_distance2 cur q" by (rule point_distance2_commute)
    also have "\<dots> < tol2" using that "2.prems"(3) by simp
    finally show ?thesis by simp
  qed
  then have "\<forall>e \<in> set (cpe_pts exact_arithmetic cur (rd_pts tol2 cur [p]) (pre @ [p])). e \<le> tol2"
    using sub by auto
  moreover have "dropWhile (\<lambda>q. q \<noteq> p) (pre @ [p]) \<noteq> []"
    by (simp add: dropWhile_eq_Nil_conv)
  ultimately show ?case by simp
next
  case (3 tol2 cur p q ps)
  show ?case
  proof (cases "point_distance2 cur p < tol2")
    case True
    have "\<forall>x \<in> set (pre @ [p]). point_distance2 cur x < tol2" using True "3.prems"(3) by simp
    moreover have "\<forall>x \<in> set (cur # (pre @ [p]) @ q # ps). length x = L" using "3.prems"(4) by simp
    ultimately have "(\<forall>e \<in> set (cpe_pts exact_arithmetic cur (rd_pts tol2 cur (q # ps)) ((pre @ [p]) @ q # ps)). e \<le> tol2) \<and>
         scan (rd_pts tol2 cur (q # ps)) ((pre @ [p]) @ q # ps) \<noteq> []"
      using "3.IH"(1) [OF True "3.prems"(1), of "pre @ [p]"] by simp
    then show ?thesis using True by simp
  next
    case False
    have ne: "\<forall>x \<in> set pre. x \<noteq> p" using False "3.prems"(3) by auto
    have tw: "takeWhile (\<lambda>x. x \<noteq> p) (pre @ p # q # ps) = pre"
      using ne by (simp add: takeWhile_append2)
    have dw: "dropWhile (\<lambda>x. x \<noteq> p) (pre @ p # q # ps) = [p] @ q # ps"
      using ne by (simp add: dropWhile_append2)
    have bound: "segment_distance2 exact_arithmetic cur p x \<le> tol2" if "x \<in> set pre" for x
    proof -
      have "segment_distance2 exact_arithmetic cur p x \<le> point_distance2 x cur"
        using that "3.prems"(4) by (intro segment_distance2_le_start) simp_all
      also have "\<dots> = point_distance2 cur x" by (rule point_distance2_commute)
      also have "\<dots> < tol2" using that "3.prems"(3) by simp
      finally show ?thesis by simp
    qed
    have "\<forall>x \<in> set [p]. point_distance2 p x < tol2" using "3.prems"(1) by (simp add: point_distance2_self)
    moreover have "\<forall>x \<in> set (p # [p] @ q # ps). length x = L" using "3.prems"(4) by simp
    ultimately have "(\<forall>e \<in> set (cpe_pts exact_arithmetic p (rd_pts tol2 p (q # ps)) ([p] @ q # ps)). e \<le> tol2) \<and>
         scan (rd_pts tol2 p (q # ps)) ([p] @ q # ps) \<noteq> []"
      using "3.IH"(2) [OF False "3.prems"(1), of "[p]"] by simp
    moreover have r: "rd_pts tol2 cur (p # q # ps) = p # rd_pts tol2 p (q # ps)" using False by simp
    moreover have "cpe_pts exact_arithmetic cur (p # rd_pts tol2 p (q # ps)) (pre @ p # q # ps) =
          map (segment_distance2 exact_arithmetic cur p) pre @ cpe_pts exact_arithmetic p (rd_pts tol2 p (q # ps)) ([p] @ q # ps)"
      unfolding cpe_pts.simps tw dw by simp
    moreover have "scan (p # rd_pts tol2 p (q # ps)) (pre @ p # q # ps) =
          scan (rd_pts tol2 p (q # ps)) ([p] @ q # ps)"
      unfolding scan.simps dw by simp
    ultimately show ?thesis using bound by auto
  qed
qed


lemma rd_pts_nonempty: "ps \<noteq> [] \<Longrightarrow> rd_pts tol2 cur ps \<noteq> []"
  by (induction tol2 cur ps rule: rd_pts.induct) auto

text \<open>
  In the arithmetic without rounding, for a well-formed polyline \<open>P\<close> of at least two
  points and a tolerance \<open>tol\<close> other than zero, every squared positional error that
  \<open>ComputePositionalErrors2\<close> reports for \<open>P\<close> and \<open>RadialDistance (P, tol)\<close> is at most
  \<open>tol * tol\<close>, and the errors reported are valid: a point left out is nearer than \<open>tol\<close>
  to the key before it, and the segment that starts at that key is no further away.
\<close>

lemma RadialDistance_errors_exact:
  assumes "length P mod DIM = 0" "2 \<le> pointCount_of DIM (length P)" "tol \<noteq> 0"
  shows "valid (ComputePositionalErrors2 exact_arithmetic DIM P (written (RadialDistance DIM P tol))) \<and>
         (\<forall>e \<in> set (errors (ComputePositionalErrors2 exact_arithmetic DIM P (written (RadialDistance DIM P tol)))).
            e \<le> tol * tol)"
proof -
  define N where "N = pointCount_of DIM (length P)"
  define R where "R = written (RadialDistance DIM P tol)"
  from well_formed_length [OF assms(1,2)] have D: "0 < DIM" and len: "length P = N * DIM"
    by (simp_all add: N_def)
  have N2: "2 \<le> N" using assms(2) by (simp add: N_def)
  have lenO: "length (points DIM P) = N" using D len by (simp add: points_length)
  then obtain p0 ps where O: "points DIM P = p0 # ps" and ps: "ps \<noteq> []"
    using N2 by (cases "points DIM P"; cases "tl (points DIM P)") auto
  define ks where "ks = p0 # rd_pts (tol * tol) p0 ps"
  have Rk: "R = concat ks" using RadialDistance_points(1) [OF assms] O by (simp add: R_def ks_def)
  have allO: "\<forall>p \<in> set (points DIM P). length p = DIM" using points_all_length [OF D len] .
  have sub: "subseq ks (points DIM P)" by (simp add: ks_def O rd_pts_subseq)
  have allk: "\<forall>p \<in> set ks. length p = DIM" using subseq_set_length [OF sub allO] .
  have ptsR: "points DIM R = ks" using points_concat [OF D allk] by (simp add: Rk)
  define M where "M = length ks"
  have lenR: "length R = M * DIM" using allk by (simp add: Rk M_def length_concat_points)
  have M2: "2 \<le> M" using rd_pts_nonempty [OF ps, of "tol * tol" p0]
    by (cases "rd_pts (tol * tol) p0 ps") (auto simp: M_def ks_def)
  have MN: "M \<le> N" using list_emb_length [OF sub] lenO by (simp add: M_def)
  have pcR: "pointCount_of DIM (length R) = M" "length R mod DIM = 0"
    using D lenR by (simp_all add: pointCount_of_def)
  have pR0: "pt DIM R 0 = p0"
    using pt_concat [OF allk, of 0] M2 by (simp add: Rk M_def ks_def)
  have pP0: "pt DIM P 0 = p0"
    using points_nth [of 0 DIM P] lenO N2 O by simp
  have l0: "length p0 = DIM" using allO O by simp
  have first: "equal_points (pt DIM P 0) (pt DIM R 0)" using pR0 pP0 by (simp add: equal_points_iff)
  have tol2: "0 < tol * tol" using assms(3) by (auto simp: zero_less_mult_iff)
  have "\<forall>q \<in> set [p0]. point_distance2 p0 q < tol * tol" using tol2 by (simp add: point_distance2_self)
  moreover have "\<forall>q \<in> set (p0 # [p0] @ ps). length q = DIM" using allO O by simp
  ultimately have main: "(\<forall>e \<in> set (cpe_pts exact_arithmetic p0 (rd_pts (tol * tol) p0 ps) ([p0] @ ps)). e \<le> tol * tol) \<and>
         scan (rd_pts (tol * tol) p0 ps) ([p0] @ ps) \<noteq> []"
    using rd_pts_errors [OF tol2 ps, of "[p0]" p0 DIM] by blast
  obtain pos res where outer: "CPE_outer exact_arithmetic DIM P R 0 DIM 0 [] = (pos, res)" by fastforce
  have "pos = (N - length (scan (tl ks) (points DIM P))) * DIM"
    using CPE_outer_position [OF D len lenR, of 1 0 exact_arithmetic 0 "[]"] M2 outer by (simp add: drop_Suc ptsR)
  moreover have "scan (tl ks) (points DIM P) \<noteq> []" using main by (simp add: ks_def O)
  ultimately have ofne: "pos \<noteq> length P"
    using D N2 lenO length_drop
    by (cases "scan (tl ks) (points DIM P)") (auto simp: len)
  have "res = cpe_pts exact_arithmetic (pt DIM R 0) (tl ks) (points DIM P)"
    using CPE_outer_errors [OF D len lenR, of 1 0 exact_arithmetic 0 "[]"] M2 outer by (simp add: drop_Suc ptsR)
  then have res: "\<forall>e \<in> set res. e \<le> tol * tol" using main by (simp add: pR0 ks_def O)
  have cpe: "ComputePositionalErrors2 exact_arithmetic DIM P R = \<lparr>errors = res @ [0], valid = True\<rparr>"
    using assms(1,2) pcR M2 MN first outer ofne
    by (simp add: ComputePositionalErrors2_def Let_def N_def [symmetric])
  show ?thesis unfolding R_def [symmetric] cpe using res tol2 by simp
qed

text \<open>
  C9 (every squared positional error reported for \<open>P\<close> and \<open>RadialDistance (P, tol)\<close> is at
  most \<open>tol * tol\<close>). With a signed integer \<open>value_type\<close> the code breaks it. For the
  polyline \<open>(1,0), (2,1), (0,2)\<close> and \<open>tol = 2\<close> the routine leaves out \<open>(2,1)\<close>, at squared
  distance 2 from the key \<open>(1,0)\<close>. The projection of \<open>(2,1)\<close> on the segment from \<open>(1,0)\<close>
  to \<open>(0,2)\<close> is \<open>(0.8, 0.4)\<close>, at squared distance \<open>9/5\<close>; \<open>segment_distance2\<close> stores it in
  an array of \<open>value_type\<close>, where it becomes \<open>(0,0)\<close>, and reports the squared distance 5
  to that point, above \<open>tol * tol = 4\<close>.
\<close>

theorem C9_RadialDistance_error_exceeds_tolerance:
  "written (RadialDistance 2 [1, 0, 2, 1, 0, 2] 2) = [1, 0, 0, 2] \<and>
   ComputePositionalErrors2 signed_integer 2 [1, 0, 2, 1, 0, 2]
     (written (RadialDistance 2 [1, 0, 2, 1, 0, 2] 2)) = \<lparr>errors = [0, 5, 0], valid = True\<rparr>"
  by code_simp

theorem C9_RadialDistance_error_exceeds_tolerance_witness:
  "(2 :: real) * 2 <
     errors (ComputePositionalErrors2 signed_integer 2 [1, 0, 2, 1, 0, 2]
               (written (RadialDistance 2 [1, 0, 2, 1, 0, 2] 2))) ! 1"
  using C9_RadialDistance_error_exceeds_tolerance [THEN conjunct2] by simp

section \<open>Endpoints of the outputs\<close>

text \<open>
  \<open>same_ends DIM xs out\<close>: the first \<open>DIM\<close> coordinates of \<open>out\<close> are those of \<open>xs\<close>, and so
  are the last \<open>DIM\<close> ones: \<open>out\<close> starts with the first point of \<open>xs\<close> and ends with its
  last point.
\<close>

definition same_ends :: "nat \<Rightarrow> real list \<Rightarrow> real list \<Rightarrow> bool" where
  "same_ends DIM xs out =
     (take DIM out = take DIM xs \<and> drop (length out - DIM) out = drop (length xs - DIM) xs)"

lemma same_ends_trans: "same_ends DIM xs ys \<Longrightarrow> same_ends DIM ys zs \<Longrightarrow> same_ends DIM xs zs"
  by (simp add: same_ends_def)

lemma last_point_drop:
  assumes "0 < DIM" "length xs = N * DIM" "0 < N"
  shows "last (points DIM xs) = drop (length xs - DIM) xs"
proof -
  have len: "length (points DIM xs) = N" using assms by (simp add: points_length)
  then have "last (points DIM xs) = points DIM xs ! (N - 1)"
    using assms(3) by (cases "points DIM xs") (auto simp: last_conv_nth)
  also have "\<dots> = pt DIM xs ((N - 1) * DIM)" using len assms(3) by (simp add: points_nth)
  also have "(N - 1) * DIM = length xs - DIM" using assms by (simp add: diff_mult_distrib)
  also have "pt DIM xs (length xs - DIM) = drop (length xs - DIM) xs"
    by (simp add: pt_def)
  finally show ?thesis .
qed

lemma keeps_ends_same_ends:
  assumes "0 < DIM" "length xs = N * DIM" "0 < N" "keeps_ends DIM xs out"
  shows "same_ends DIM xs out"
proof -
  from assms(4) obtain ks where out: "out = points DIM xs ! 0 @ concat ks" and kf: "keys_from DIM xs 1 ks"
    unfolding keeps_ends_def by blast
  have len: "length (points DIM xs) = N" using assms by (simp add: points_length)
  have allO: "\<forall>p \<in> set (points DIM xs). length p = DIM" using points_all_length [OF assms(1,2)] .
  have p0: "points DIM xs ! 0 = take DIM xs" using len assms(3) by (simp add: points_nth pt_def)
  have l0: "length (points DIM xs ! 0) = DIM" using allO len assms(3) by simp
  from kf have ne: "ks \<noteq> []" and lk: "last ks = last (points DIM xs)" by (simp_all add: keys_from_def)
  have ll: "length (last ks) = DIM" using lk allO len assms(3) by (cases "points DIM xs") auto
  have "concat ks = concat (butlast ks @ [last ks])" using ne by simp
  then have "concat ks = concat (butlast ks) @ last ks" by (simp only: concat_append concat.simps append_Nil2)
  then have o2: "out = (points DIM xs ! 0 @ concat (butlast ks)) @ last ks"
    using out by simp
  have "drop (length out - DIM) out = last ks"
    by (subst o2, subst o2) (simp add: ll)
  then have "drop (length out - DIM) out = drop (length xs - DIM) xs"
    using lk last_point_drop [OF assms(1-3)] by simp
  moreover have "take DIM out = take DIM xs" using out l0 p0 by simp
  ultimately show ?thesis by (simp add: same_ends_def)
qed

lemma rd_pts_last: "ps \<noteq> [] \<Longrightarrow> last (rd_pts tol2 cur ps) = last ps"
  by (induction tol2 cur ps rule: rd_pts.induct) (auto simp: rd_pts_nonempty)

lemma RadialDistance_keeps_ends:
  assumes "length xs mod DIM = 0" "2 \<le> pointCount_of DIM (length xs)" "tol \<noteq> 0"
  shows "keeps_ends DIM xs (written (RadialDistance DIM xs tol))"
proof -
  define N where "N = pointCount_of DIM (length xs)"
  from well_formed_length [OF assms(1,2)] have D: "0 < DIM" and len: "length xs = N * DIM"
    by (simp_all add: N_def)
  have lenp: "length (points DIM xs) = N" using D len by (simp add: points_length)
  then obtain p ps where pp: "points DIM xs = p # ps" and ps: "ps \<noteq> []"
    using assms(2) by (cases "points DIM xs"; cases "tl (points DIM xs)") (auto simp: N_def)
  have "keys_from DIM xs 1 (rd_pts (tol * tol) p ps)"
    using ps by (simp add: keys_from_def pp rd_pts_subseq rd_pts_nonempty rd_pts_last)
  moreover have "written (RadialDistance DIM xs tol) = points DIM xs ! 0 @ concat (rd_pts (tol * tol) p ps)"
    using RadialDistance_points(1) [OF assms] pp by simp
  ultimately show ?thesis unfolding keeps_ends_def by blast
qed

lemma copy_keys_keeps_ends:
  assumes "0 < DIM" "length cs = N * DIM" "2 \<le> N" "keys ! 0" "keys ! (N - 1)"
  shows "keeps_ends DIM cs (copy_keys DIM cs keys N)"
proof -
  have len: "length (points DIM cs) = N" using assms by (simp add: points_length)
  have "map (\<lambda>p. pt DIM cs (p * DIM)) (filter (\<lambda>p. keys ! p) [0..<N]) =
        map (\<lambda>p. points DIM cs ! p) (filter (\<lambda>p. keys ! p) [0..<N])"
    using len by (intro map_cong) (simp_all add: points_nth)
  then have ck: "copy_keys DIM cs keys N =
        concat (map (\<lambda>p. points DIM cs ! p) (filter (\<lambda>p. keys ! p) [0..<N]))"
    unfolding copy_keys_def concat_map_if by (rule arg_cong)
  obtain M where NM: "N = Suc (Suc M)" using assms(3) by (cases N; cases "N - 1") auto
  have up: "[0..<N] = 0 # [1..<N - 1] @ [N - 1]"
    unfolding NM by (simp add: upt_conv_Cons)
  define js where "js = filter (\<lambda>p. keys ! p) [1..<N - 1] @ [N - 1]"
  have fl: "filter (\<lambda>p. keys ! p) [0..<N] = 0 # js"
    unfolding up js_def using assms(4,5) by simp
  define ks where "ks = map (\<lambda>p. points DIM cs ! p) js"
  have out: "copy_keys DIM cs keys N = points DIM cs ! 0 @ concat ks"
    by (simp add: ck fl ks_def)
  have "subseq js ([1..<N - 1] @ [N - 1])" unfolding js_def by (intro list_emb_append_mono) simp_all
  moreover have "[1..<N] = [1..<N - 1] @ [N - 1]" unfolding NM by simp
  ultimately have "subseq js [1..<N]" by simp
  then have "subseq ks (map (\<lambda>p. points DIM cs ! p) [1..<N])" unfolding ks_def by (rule subseq_map)
  moreover have "map (\<lambda>p. points DIM cs ! p) [1..<N] = drop 1 (points DIM cs)"
    using len by (intro nth_equalityI) simp_all
  moreover have "ks \<noteq> []" by (simp add: ks_def js_def)
  moreover have "last ks = last (points DIM cs)"
    using len assms(3) by (cases "points DIM cs") (auto simp: ks_def js_def last_conv_nth)
  ultimately have "keys_from DIM cs 1 ks" by (simp add: keys_from_def)
  with out show ?thesis unfolding keeps_ends_def by blast
qed


lemma list_update_True_keeps: "i < length keys \<Longrightarrow> keys ! i \<Longrightarrow> (keys[j := True]) ! i"
  by (cases "j < length keys") (auto simp: nth_list_update)

text \<open>
  Both Douglas-Peucker loops only ever set entries of the key array, so the two
  endpoints marked before the loop stay marked.
\<close>

lemma Approximate_loop_keeps:
  "length (Approximate_loop fl DIM coords tol stack keys) = length keys \<and>
   (\<forall>i < length keys. keys ! i \<longrightarrow> Approximate_loop fl DIM coords tol stack keys ! i)"
proof (induction fl DIM coords tol stack keys rule: Approximate_loop.induct)
  case (1 fl DIM coords tol keys)
  show ?case by (subst (1 2) Approximate_loop.simps) simp
next
  case (2 fl DIM coords tol subPoly stack keys)
  define ki where "ki = FindKey fl DIM coords (sub_first subPoly) (sub_last subPoly)"
  show ?case
  proof (cases "index ki \<noteq> sub_last subPoly \<and> tol * tol < dist2 ki")
    case True
    have e: "Approximate_loop fl DIM coords tol (subPoly # stack) keys =
             Approximate_loop fl DIM coords tol
                (\<lparr>sub_first = sub_first subPoly, sub_last = index ki\<rparr> #
                 \<lparr>sub_first = index ki, sub_last = sub_last subPoly\<rparr> # stack)
                (keys[index ki div DIM := True])"
      using True by (subst Approximate_loop.simps) (simp add: ki_def Let_def)
    from "2.IH"(1) [OF ki_def True]
    have ih: "length (Approximate_loop fl DIM coords tol (subPoly # stack) keys) = length (keys[index ki div DIM := True]) \<and>
       (\<forall>i < length (keys[index ki div DIM := True]). (keys[index ki div DIM := True]) ! i \<longrightarrow>
           Approximate_loop fl DIM coords tol (subPoly # stack) keys ! i)"
      unfolding e ki_def by simp
    then show ?thesis by (simp add: list_update_True_keeps)
  next
    case False
    have e: "Approximate_loop fl DIM coords tol (subPoly # stack) keys =
             Approximate_loop fl DIM coords tol stack keys"
      using False by (subst Approximate_loop.simps) (auto simp add: ki_def Let_def)
    from "2.IH"(2) [OF refl] False show ?thesis unfolding e ki_def by auto
  qed
qed

lemma ApproximateAlt_loop_keeps:
  "length (ApproximateAlt_loop fl fifo DIM coords countTol queue keyCount keys) = length keys \<and>
   (\<forall>i < length keys. keys ! i \<longrightarrow> ApproximateAlt_loop fl fifo DIM coords countTol queue keyCount keys ! i)"
proof (induction fl fifo DIM coords countTol queue keyCount keys rule: ApproximateAlt_loop.induct)
  case (1 fl fifo DIM coords countTol queue keyCount keys)
  show ?case
  proof (cases "queue = []")
    case True
    then show ?thesis by (subst (1 2) ApproximateAlt_loop.simps) simp
  next
    case ne: False
    define sp where "sp = pq_top fifo queue"
    define q' where "q' = pq_pop fifo queue"
    show ?thesis
    proof (cases "index (keyInfo sp) \<noteq> sub_last sp")
      case False
      have e: "ApproximateAlt_loop fl fifo DIM coords countTol queue keyCount keys =
               ApproximateAlt_loop fl fifo DIM coords countTol q' keyCount keys"
        using ne False by (subst ApproximateAlt_loop.simps) (simp add: sp_def q'_def Let_def)
      from "1.IH"(2) [OF ne refl refl] False show ?thesis unfolding e sp_def q'_def by simp
    next
      case True
      define keys' where "keys' = keys[index (keyInfo sp) div DIM := True]"
      show ?thesis
      proof (cases "keyCount + 1 = countTol \<or> countTol < keyCount + 1")
        case stop: True
        have e: "ApproximateAlt_loop fl fifo DIM coords countTol queue keyCount keys = keys'"
          using ne True stop by (subst ApproximateAlt_loop.simps) (simp add: sp_def q'_def keys'_def Let_def)
        show ?thesis unfolding e keys'_def by (simp add: list_update_True_keeps)
      next
        case go: False
        define left where "left = \<lparr>sub_first = sub_first sp, sub_last = index (keyInfo sp),
                                      keyInfo = FindKey fl DIM coords (sub_first sp) (index (keyInfo sp))\<rparr>"
        define right where "right = \<lparr>sub_first = index (keyInfo sp), sub_last = sub_last sp,
                                       keyInfo = FindKey fl DIM coords (index (keyInfo sp)) (sub_last sp)\<rparr>"
        have e: "ApproximateAlt_loop fl fifo DIM coords countTol queue keyCount keys =
                 ApproximateAlt_loop fl fifo DIM coords countTol
                              (pq_push right (pq_push left q')) (keyCount + 1) keys'"
          using ne True go by (subst ApproximateAlt_loop.simps)
            (simp add: sp_def q'_def keys'_def left_def right_def Let_def)
        from "1.IH"(1) [OF ne refl refl _ refl refl _ refl refl] True go
        have "length (ApproximateAlt_loop fl fifo DIM coords countTol queue keyCount keys) = length keys' \<and>
              (\<forall>i < length keys'. keys' ! i \<longrightarrow> ApproximateAlt_loop fl fifo DIM coords countTol queue keyCount keys ! i)"
          unfolding e sp_def q'_def keys'_def left_def right_def by simp
        then show ?thesis unfolding keys'_def by (simp add: list_update_True_keeps)
      qed
    qed
  qed
qed


lemma Approximate_ends:
  assumes "0 < DIM" "2 \<le> M"
  shows "Approximate fl DIM coords (M * DIM) tol ! 0 \<and> Approximate fl DIM coords (M * DIM) tol ! (M - 1)"
proof -
  define keys where "keys = ((replicate M False)[0 := True])[M - 1 := True]"
  have l: "length keys = M" and k0: "keys ! 0" and k1: "keys ! (M - 1)"
    using assms by (auto simp: keys_def nth_list_update)
  have "Approximate fl DIM coords (M * DIM) tol =
        Approximate_loop fl DIM coords tol [\<lparr>sub_first = 0, sub_last = M * DIM - DIM\<rparr>] keys"
    using assms by (simp add: Approximate_def Let_def keys_def)
  then show ?thesis
    using Approximate_loop_keeps [of fl DIM coords tol "[\<lparr>sub_first = 0, sub_last = M * DIM - DIM\<rparr>]" keys]
      l k0 k1 assms by simp
qed

lemma ApproximateAlt_ends:
  assumes "0 < DIM" "2 \<le> M"
  shows "ApproximateAlt fl fifo DIM coords (M * DIM) countTol ! 0 \<and>
         ApproximateAlt fl fifo DIM coords (M * DIM) countTol ! (M - 1)"
proof -
  define keys where "keys = ((replicate M False)[0 := True])[M - 1 := True]"
  define q where "q = pq_push \<lparr>sub_first = 0, sub_last = M * DIM - DIM,
                          keyInfo = FindKey fl DIM coords 0 (M * DIM - DIM)\<rparr> []"
  have l: "length keys = M" and k0: "keys ! 0" and k1: "keys ! (M - 1)"
    using assms by (auto simp: keys_def nth_list_update)
  have "ApproximateAlt fl fifo DIM coords (M * DIM) countTol =
        (if countTol = 2 then keys else ApproximateAlt_loop fl fifo DIM coords countTol q 2 keys)"
    using assms by (simp add: ApproximateAlt_def Let_def keys_def q_def)
  then show ?thesis
    using ApproximateAlt_loop_keeps [of fl fifo DIM coords countTol q 2 keys]
      l k0 k1 assms by simp
qed

lemma keeps_ends_length:
  assumes "0 < DIM" "length xs = N * DIM" "keeps_ends DIM xs out"
  shows "\<exists>M. length out = M * DIM \<and> 2 \<le> M"
proof -
  from assms(3) obtain ks where out: "out = points DIM xs ! 0 @ concat ks" and kf: "keys_from DIM xs 1 ks"
    unfolding keeps_ends_def by blast
  from kf have ne: "ks \<noteq> []" and sub: "subseq ks (drop 1 (points DIM xs))"
    by (simp_all add: keys_from_def)
  have allO: "\<forall>p \<in> set (points DIM xs). length p = DIM" using points_all_length [OF assms(1,2)] .
  from sub ne have "drop 1 (points DIM xs) \<noteq> []" by auto
  then have "0 < length (points DIM xs)" by (cases "points DIM xs") auto
  then have l0: "length (points DIM xs ! 0) = DIM" using allO by simp
  have "\<forall>p \<in> set (drop 1 (points DIM xs)). length p = DIM"
    using allO by (auto dest: in_set_dropD)
  then have "\<forall>p \<in> set ks. length p = DIM" by (rule subseq_set_length [OF sub])
  then have "length (concat ks) = length ks * DIM" by (simp add: length_concat_points)
  then have "length out = Suc (length ks) * DIM" using out l0 by simp
  moreover have "2 \<le> Suc (length ks)" using ne by (cases ks) auto
  ultimately show ?thesis by blast
qed

lemma DouglasPeuckerAlt_keeps_ends:
  assumes ok: "\<not> (length xs mod DIM \<noteq> 0 \<or> pointCount_of DIM (length xs) \<le> count \<or> count < 2)"
  shows "keeps_ends DIM xs (written (DouglasPeuckerAlt fl fifo DIM xs count))"
proof -
  define N where "N = pointCount_of DIM (length xs)"
  from ok have wf: "length xs mod DIM = 0" "2 \<le> pointCount_of DIM (length xs)" by auto
  from well_formed_length [OF wf] have D: "0 < DIM" and len: "length xs = N * DIM"
    by (simp_all add: N_def)
  have N2: "2 \<le> N" using wf(2) by (simp add: N_def)
  have "keeps_ends DIM xs (copy_keys DIM xs (ApproximateAlt fl fifo DIM xs (N * DIM) count) N)"
    using copy_keys_keeps_ends [OF D len N2] ApproximateAlt_ends [OF D N2] by blast
  moreover have "pointCount_of DIM (N * DIM) = N" using D by (simp add: pointCount_of_def)
  ultimately show ?thesis using ok len
    by (simp add: DouglasPeuckerAlt_def Let_def finish_def)
qed

lemma DouglasPeucker_same_ends:
  assumes ok: "\<not> (length xs mod DIM \<noteq> 0 \<or> pointCount_of DIM (length xs) < 2 \<or> tol = 0)"
  shows "same_ends DIM xs (written (DouglasPeucker fl DIM xs tol))"
proof -
  from ok have wf: "length xs mod DIM = 0" "2 \<le> pointCount_of DIM (length xs)" "tol \<noteq> 0" by auto
  define N where "N = pointCount_of DIM (length xs)"
  from well_formed_length [OF wf(1,2)] have D: "0 < DIM" and len: "length xs = N * DIM"
    by (simp_all add: N_def)
  have N0: "0 < N" using wf(2) by (simp add: N_def)
  define reduced where "reduced = written (RadialDistance DIM xs tol)"
  have ke: "keeps_ends DIM xs reduced" unfolding reduced_def by (rule RadialDistance_keeps_ends [OF wf])
  have rt: "ret (RadialDistance DIM xs tol) = length reduced"
    using RadialDistance_points(2) [OF wf] by (simp add: reduced_def)
  from keeps_ends_length [OF D len ke] obtain M where lr: "length reduced = M * DIM" and M2: "2 \<le> M"
    by blast
  have dv: "length reduced div DIM = M" using D lr by simp
  have "keeps_ends DIM reduced (copy_keys DIM reduced (Approximate fl DIM reduced (M * DIM) tol) M)"
    using copy_keys_keeps_ends [OF D lr M2] Approximate_ends [OF D M2] by blast
  then have "same_ends DIM reduced (copy_keys DIM reduced (Approximate fl DIM reduced (M * DIM) tol) M)"
    using keeps_ends_same_ends [OF D lr] M2 by simp
  moreover have "same_ends DIM xs reduced" using keeps_ends_same_ends [OF D len N0 ke] .
  ultimately have "same_ends DIM xs (copy_keys DIM reduced (Approximate fl DIM reduced (M * DIM) tol) M)"
    by (rule same_ends_trans [rotated])
  then show ?thesis using ok rt dv lr
    by (simp add: DouglasPeucker_def Let_def finish_def reduced_def [symmetric])
qed

text \<open>
  On input that passes its validation, each of the seven routines with a validation of
  its own writes the first point of the input first and the last point of the input
  last. The repeated perpendicular distance routine is not among them. \<open>DouglasPeucker\<close>
  validates \<open>tol\<close> and the \<open>RadialDistance\<close> it calls first validates \<open>tol * tol\<close>; the
  statement asks for the second.
\<close>

lemma routines_keep_endpoints:
  assumes "length xs mod DIM = 0"
  shows "2 \<le> pointCount_of DIM (length xs) \<Longrightarrow> 2 \<le> n \<Longrightarrow>
           same_ends DIM xs (written (NthPoint DIM xs n))"
    and "2 \<le> pointCount_of DIM (length xs) \<Longrightarrow> tol \<noteq> 0 \<Longrightarrow>
           same_ends DIM xs (written (RadialDistance DIM xs tol))"
    and "3 \<le> pointCount_of DIM (length xs) \<Longrightarrow> tol \<noteq> 0 \<Longrightarrow>
           same_ends DIM xs (written (PerpendicularDistance fl DIM xs tol))"
    and "3 \<le> pointCount_of DIM (length xs) \<Longrightarrow> tol \<noteq> 0 \<Longrightarrow>
           same_ends DIM xs (written (ReumannWitkam fl DIM xs tol))"
    and "2 \<le> pointCount_of DIM (length xs) \<Longrightarrow> minTol \<noteq> 0 \<Longrightarrow> maxTol \<noteq> 0 \<Longrightarrow>
           same_ends DIM xs (written (Opheim fl DIM xs minTol maxTol))"
    and "2 \<le> pointCount_of DIM (length xs) \<Longrightarrow> tol * tol \<noteq> 0 \<Longrightarrow>
           same_ends DIM xs (written (DouglasPeucker fl DIM xs tol))"
    and "2 \<le> count \<Longrightarrow> count < pointCount_of DIM (length xs) \<Longrightarrow>
           same_ends DIM xs (written (DouglasPeuckerAlt fl fifo DIM xs count))"
proof -
  define N where "N = pointCount_of DIM (length xs)"
  have wf: "2 \<le> N \<Longrightarrow> 0 < DIM \<and> length xs = N * DIM \<and> 0 < N"
    using well_formed_length [OF assms] by (simp add: N_def)
  note se = keeps_ends_same_ends
  show "2 \<le> pointCount_of DIM (length xs) \<Longrightarrow> 2 \<le> n \<Longrightarrow>
           same_ends DIM xs (written (NthPoint DIM xs n))"
    using wf se [of DIM xs N] NthPoint_keeps_ends [of DIM xs n] assms by (simp add: N_def)
  show "2 \<le> pointCount_of DIM (length xs) \<Longrightarrow> tol \<noteq> 0 \<Longrightarrow>
           same_ends DIM xs (written (RadialDistance DIM xs tol))"
    using wf se [of DIM xs N] RadialDistance_keeps_ends [of xs DIM tol] assms by (simp add: N_def)
  show "3 \<le> pointCount_of DIM (length xs) \<Longrightarrow> tol \<noteq> 0 \<Longrightarrow>
           same_ends DIM xs (written (PerpendicularDistance fl DIM xs tol))"
    using wf se [of DIM xs N] PerpendicularDistance_keeps_ends [of DIM xs tol fl] assms by (simp add: N_def)
  show "3 \<le> pointCount_of DIM (length xs) \<Longrightarrow> tol \<noteq> 0 \<Longrightarrow>
           same_ends DIM xs (written (ReumannWitkam fl DIM xs tol))"
    using wf se [of DIM xs N] ReumannWitkam_keeps_ends [of DIM xs tol fl] assms by (simp add: N_def)
  show "2 \<le> pointCount_of DIM (length xs) \<Longrightarrow> minTol \<noteq> 0 \<Longrightarrow> maxTol \<noteq> 0 \<Longrightarrow>
           same_ends DIM xs (written (Opheim fl DIM xs minTol maxTol))"
    using wf se [of DIM xs N] Opheim_keeps_ends [of DIM xs minTol maxTol fl] assms by (simp add: N_def)
  show "2 \<le> pointCount_of DIM (length xs) \<Longrightarrow> tol * tol \<noteq> 0 \<Longrightarrow>
           same_ends DIM xs (written (DouglasPeucker fl DIM xs tol))"
    using DouglasPeucker_same_ends [of xs DIM tol fl] assms by simp
  show "2 \<le> count \<Longrightarrow> count < pointCount_of DIM (length xs) \<Longrightarrow>
           same_ends DIM xs (written (DouglasPeuckerAlt fl fifo DIM xs count))"
    using wf se [of DIM xs N] DouglasPeuckerAlt_keeps_ends [of xs DIM count fl fifo] assms by (simp add: N_def)
qed

end
